theory Spec2Isabelle
  imports Complex_Main
begin

section \<open>Shared data model\<close>

text \<open>
  The exceptions the modelled code raises.  A raised exception is the \<open>Inl\<close> branch of a
  sum, a returned value the \<open>Inr\<close> branch.  \<open>ShapeMismatch\<close> marks a call with arrays of
  unequal shapes, which the model does not follow further.
\<close>

datatype error =
  IndexError | ValueError | TypeError | NotImplementedError | GPArgumentError | ShapeMismatch

text \<open>
  A two-dimensional float array: its second shape entry and its rows.  The shape is kept
  apart from the rows because an array with no rows still has a column count, and a
  column read beyond it raises.  Floats are modelled by the reals: rounding is not part
  of the model.
\<close>

record matrix =
  ncols :: nat
  mrows :: "real list list"

definition wf_matrix :: "matrix \<Rightarrow> bool" where
  "wf_matrix x = list_all (\<lambda>r. length r = ncols x) (mrows x)"

text \<open>\<^verbatim>\<open>x[:, m]\<close>: the column with index \<open>m\<close>, an \<open>IndexError\<close> beyond the shape.\<close>

definition column :: "matrix \<Rightarrow> nat \<Rightarrow> error + real list" where
  "column x m = (if m < ncols x then Inr (map (\<lambda>r. r ! m) (mrows x)) else Inl IndexError)"

section \<open>utils.incomplete\_bell\_poly\<close>

text \<open>
  \<^verbatim>\<open>result += x[:, m] * binom(n - 1, m) * incomplete_bell_poly(n - (m + 1), k - 1, x)\<close>,
  one round of the loop over \<open>m\<close>.  The operands are evaluated left to right, each of
  them may raise.
\<close>

definition bell_round ::
  "nat \<Rightarrow> nat \<Rightarrow> matrix \<Rightarrow> (error + real list) \<Rightarrow> (error + real list) \<Rightarrow> error + real list" where
  "bell_round n m x rec acc =
     (case acc of Inl e \<Rightarrow> Inl e
      | Inr result \<Rightarrow>
         (case column x m of Inl e \<Rightarrow> Inl e
          | Inr xm \<Rightarrow>
             (case rec of Inl e \<Rightarrow> Inl e
              | Inr b \<Rightarrow>
                 Inr (map2 (+) result
                        (map2 (*) (map (\<lambda>v. v * real ((n - 1) choose m)) xm) b)))))"

text \<open>
  The subscripts are natural numbers.  \<^verbatim>\<open>xrange(0, n - k + 1)\<close> is computed over the
  integers, so it is empty when \<open>k > n\<close>; in the last branch \<open>n \<ge> 1\<close>, \<open>k \<ge> 1\<close> and
  \<open>m + 1 \<le> n\<close>, so that \<open>n - 1\<close>, \<open>k - 1\<close> and \<open>n - (m + 1)\<close> are what Python computes.
\<close>

function incomplete_bell_poly :: "nat \<Rightarrow> nat \<Rightarrow> matrix \<Rightarrow> error + real list" where
  "incomplete_bell_poly n k x =
     (if n = 0 \<and> k = 0 then Inr (replicate (length (mrows x)) 1)
      else if k = 0 \<and> n \<ge> 1 then Inr (replicate (length (mrows x)) 0)
      else if n = 0 \<and> k \<ge> 1 then Inr (replicate (length (mrows x)) 0)
      else fold (\<lambda>m acc. bell_round n m x (incomplete_bell_poly (n - (m + 1)) (k - 1) x) acc)
             [0..<nat (int n - int k + 1)]
             (Inr (replicate (length (mrows x)) 0)))"
  by pat_completeness auto
termination
  by (relation "measure (\<lambda>(n, k, x). n)") auto

declare incomplete_bell_poly.simps [simp del]

text \<open>
  The polynomial as the specification words it, for one argument row \<open>r\<close> with
  \<open>x\<^sub>m = r ! (m - 1)\<close>: \<open>B\<^sub>0\<^sub>,\<^sub>0 = 1\<close>, \<open>B\<^sub>n\<^sub>,\<^sub>0 = 0\<close> for \<open>n \<ge> 1\<close>, \<open>B\<^sub>0\<^sub>,\<^sub>k = 0\<close> for
  \<open>k \<ge> 1\<close>, and \<open>B\<^sub>n\<^sub>,\<^sub>k = \<Sum>m = 1..n - k + 1. x\<^sub>m * C(n - 1, m - 1) * B\<^sub>n\<^sub>-\<^sub>m\<^sub>,\<^sub>k\<^sub>-\<^sub>1\<close>.  The upper
  limit \<open>n - k + 1\<close> is an integer; over the naturals it is \<open>Suc n - k\<close>, which is \<open>0\<close>
  when \<open>k > n\<close>.
\<close>

fun bell_poly_spec :: "nat \<Rightarrow> nat \<Rightarrow> real list \<Rightarrow> real" where
  "bell_poly_spec 0 0 r = 1"
| "bell_poly_spec (Suc n) 0 r = 0"
| "bell_poly_spec 0 (Suc k) r = 0"
| "bell_poly_spec (Suc n) (Suc k) r =
     (\<Sum>m\<leftarrow>[1..<Suc (Suc n - k)]. r ! (m - 1) * real (n choose (m - 1)) * bell_poly_spec (Suc n - m) k r)"


subsection \<open>The evaluator computes the recurrence\<close>

lemma map2_same:
  "map2 h (map f xs) (map g xs) = map (\<lambda>x. h (f x) (g x)) xs"
  by (induction xs) auto

lemma fold_bell_round:
  assumes "u \<le> ncols x"
    and "\<And>m. m < u \<Longrightarrow> rec m = Inr (map (g m) (mrows x))"
  shows "fold (\<lambda>m acc. bell_round n m x (rec m) acc) [0..<u] (Inr (replicate (length (mrows x)) 0))
       = Inr (map (\<lambda>r. \<Sum>m<u. r ! m * real ((n - 1) choose m) * g m r) (mrows x))"
  using assms
proof (induction u)
  case 0
  show ?case by (simp add: map_replicate_const)
next
  case (Suc u)
  have col: "column x u = Inr (map (\<lambda>r. r ! u) (mrows x))"
    using Suc.prems(1) by (simp add: column_def)
  have prev: "fold (\<lambda>m acc. bell_round n m x (rec m) acc) [0..<u] (Inr (replicate (length (mrows x)) 0))
       = Inr (map (\<lambda>r. \<Sum>m<u. r ! m * real ((n - 1) choose m) * g m r) (mrows x))"
    using Suc by simp
  have "fold (\<lambda>m acc. bell_round n m x (rec m) acc) [0..<Suc u] (Inr (replicate (length (mrows x)) 0))
      = bell_round n u x (rec u) (Inr (map (\<lambda>r. \<Sum>m<u. r ! m * real ((n - 1) choose m) * g m r) (mrows x)))"
    by (simp add: prev)
  also have "\<dots> = Inr (map (\<lambda>r. \<Sum>m<Suc u. r ! m * real ((n - 1) choose m) * g m r) (mrows x))"
    by (simp add: bell_round_def col Suc.prems(2) map2_same)
  finally show ?case .
qed

lemma incomplete_bell_poly_spec:
  "nat (int n - int k + 1) \<le> ncols x \<Longrightarrow>
     incomplete_bell_poly n k x = Inr (map (bell_poly_spec n k) (mrows x))"
proof (induction n k x rule: incomplete_bell_poly.induct)
  case (1 n k x)
  show ?case
  proof (cases "n = 0 \<or> k = 0")
    case True
    then show ?thesis
      by (cases n; cases k) (simp_all add: incomplete_bell_poly.simps map_replicate_const)
  next
    case False
    then obtain n' k' where nk: "n = Suc n'" "k = Suc k'"
      by (cases n; cases k) auto
    define u where "u = nat (int n - int k + 1)"
    have u: "u = Suc n' - k'" by (simp add: u_def nk)
    have rec: "incomplete_bell_poly (n - (m + 1)) (k - 1) x = Inr (map (bell_poly_spec (n - (m + 1)) k') (mrows x))"
      if "m < u" for m
    proof -
      have "nat (int (n - (m + 1)) - int (k - 1) + 1) \<le> ncols x"
        using "1.prems" that by (simp add: nk u) 
      moreover have "m \<in> set [0..<nat (int n - int k + 1)]"
        using that by (simp add: u_def)
      ultimately show ?thesis
        using "1.IH" [of m] False by (simp add: nk)
    qed
    have "incomplete_bell_poly n k x =
          fold (\<lambda>m acc. bell_round n m x (incomplete_bell_poly (n - (m + 1)) (k - 1) x) acc)
             [0..<u] (Inr (replicate (length (mrows x)) 0))"
      using False by (subst incomplete_bell_poly.simps) (simp add: u_def)
    also have "\<dots> = Inr (map (\<lambda>r. \<Sum>m<u. r ! m * real ((n - 1) choose m) * bell_poly_spec (n - (m + 1)) k' r) (mrows x))"
      using "1.prems" rec by (intro fold_bell_round) (simp_all add: u_def)
    also have "\<dots> = Inr (map (bell_poly_spec n k) (mrows x))"
    proof -
      have "(\<Sum>m<u. r ! m * real ((n - 1) choose m) * bell_poly_spec (n - (m + 1)) k' r) = bell_poly_spec n k r" for r
      proof -
        have "bell_poly_spec n k r = (\<Sum>m\<leftarrow>[1..<Suc u]. r ! (m - 1) * real (n' choose (m - 1)) * bell_poly_spec (Suc n' - m) k' r)"
          by (simp add: nk u)
        also have "[1..<Suc u] = map Suc [0..<u]"
          by (simp add: map_Suc_upt)
        also have "(\<Sum>m\<leftarrow>map Suc [0..<u]. r ! (m - 1) * real (n' choose (m - 1)) * bell_poly_spec (Suc n' - m) k' r)
                 = (\<Sum>m\<leftarrow>[0..<u]. r ! m * real (n' choose m) * bell_poly_spec (n' - m) k' r)"
          by (simp add: comp_def)
        also have "\<dots> = (\<Sum>m<u. r ! m * real (n' choose m) * bell_poly_spec (n' - m) k' r)"
          by (simp add: sum_list_sum_nth atLeast0LessThan)
        finally show ?thesis by (simp add: nk)
      qed
      then show ?thesis by simp
    qed
    finally show ?thesis .
  qed
qed



lemma xrange_bound: "nat (int n - int k + 1) = Suc n - k"
  by arith

lemma nth_eq_of_take_eq:
  "take c r = take c r' \<Longrightarrow> i < c \<Longrightarrow> r ! i = r' ! i"
  by (metis nth_take)

lemma bell_poly_spec_prefix:
  "take c r = take c r' \<Longrightarrow> Suc n - k \<le> c \<Longrightarrow> bell_poly_spec n k r = bell_poly_spec n k r'"
proof (induction n k r arbitrary: c rule: bell_poly_spec.induct)
  case (4 n k r)
  have "r ! (m - 1) * real (n choose (m - 1)) * bell_poly_spec (Suc n - m) k r
      = r' ! (m - 1) * real (n choose (m - 1)) * bell_poly_spec (Suc n - m) k r'"
    if "m \<in> set [1..<Suc (Suc n - k)]" for m
  proof -
    from that have m: "1 \<le> m" "m \<le> Suc n - k" by auto
    have "r ! (m - 1) = r' ! (m - 1)"
      using m "4.prems" by (intro nth_eq_of_take_eq [of c]) auto
    moreover have "bell_poly_spec (Suc n - m) k r = bell_poly_spec (Suc n - m) k r'"
      using m "4.prems" by (intro "4.IH" [OF that, of c]) auto
    ultimately show ?thesis by simp
  qed
  then have "map (\<lambda>m. r ! (m - 1) * real (n choose (m - 1)) * bell_poly_spec (Suc n - m) k r) [1..<Suc (Suc n - k)]
      = map (\<lambda>m. r' ! (m - 1) * real (n choose (m - 1)) * bell_poly_spec (Suc n - m) k r') [1..<Suc (Suc n - k)]"
    by (intro map_cong) auto
  then show ?case
    unfolding bell_poly_spec.simps by (rule arg_cong)
qed simp_all

text \<open>
  Claim C3.  \<open>incomplete_bell_poly 0 0 x\<close> is a vector of ones, \<open>incomplete_bell_poly n 0 x\<close>
  (\<open>n \<ge> 1\<close>) and \<open>incomplete_bell_poly 0 k x\<close> (\<open>k \<ge> 1\<close>) are vectors of zeros, one entry
  per argument row.  For \<open>n, k \<ge> 1\<close> and an array with at least the \<open>n - k + 1\<close> columns
  the recurrence reads, every recursive call \<open>incomplete_bell_poly (n - m) (k - 1) x\<close>
  returns a vector \<open>B m\<close>, and entry \<open>i\<close> of the result is
  \<open>\<Sum>m = 1..n - k + 1. x\<^sub>i\<^sub>,\<^sub>m * C(n - 1, m - 1) * (B m)\<^sub>i\<close>; an array \<open>y\<close> that agrees with
  \<open>x\<close> on the first \<open>n - k + 1\<close> columns gives the same result, whatever its other
  columns hold.
\<close>

theorem incomplete_bell_poly_recurrence:
  "incomplete_bell_poly 0 0 x = Inr (replicate (length (mrows x)) 1)
   \<and> (n \<ge> 1 \<longrightarrow> incomplete_bell_poly n 0 x = Inr (replicate (length (mrows x)) 0))
   \<and> (k \<ge> 1 \<longrightarrow> incomplete_bell_poly 0 k x = Inr (replicate (length (mrows x)) 0))
   \<and> (n \<ge> 1 \<and> k \<ge> 1 \<and> wf_matrix x \<and> nat (int n - int k + 1) \<le> ncols x \<longrightarrow>
        (\<exists>B. (\<forall>m \<in> {1..nat (int n - int k + 1)}.
                 incomplete_bell_poly (n - m) (k - 1) x = Inr (B m) \<and> length (B m) = length (mrows x))
           \<and> incomplete_bell_poly n k x =
               Inr (map (\<lambda>i. \<Sum>m = 1..nat (int n - int k + 1).
                            mrows x ! i ! (m - 1) * real ((n - 1) choose (m - 1)) * B m ! i)
                      [0..<length (mrows x)]))
      \<and> (\<forall>y. wf_matrix y \<and> nat (int n - int k + 1) \<le> ncols y
              \<and> map (take (nat (int n - int k + 1))) (mrows y)
                  = map (take (nat (int n - int k + 1))) (mrows x)
             \<longrightarrow> incomplete_bell_poly n k y = incomplete_bell_poly n k x))"
proof (intro conjI impI allI)
  show "incomplete_bell_poly 0 0 x = Inr (replicate (length (mrows x)) 1)"
    by (simp add: incomplete_bell_poly.simps)
next
  assume "n \<ge> 1"
  then show "incomplete_bell_poly n 0 x = Inr (replicate (length (mrows x)) 0)"
    by (simp add: incomplete_bell_poly.simps)
next
  assume "k \<ge> 1"
  then show "incomplete_bell_poly 0 k x = Inr (replicate (length (mrows x)) 0)"
    by (simp add: incomplete_bell_poly.simps)
next
  assume a: "n \<ge> 1 \<and> k \<ge> 1 \<and> wf_matrix x \<and> nat (int n - int k + 1) \<le> ncols x"
  define u where "u = nat (int n - int k + 1)"
  obtain n' k' where nk: "n = Suc n'" "k = Suc k'"
    using a by (cases n; cases k) auto
  have u: "u = Suc n' - k'" by (simp add: u_def nk)
  define B where "B m = map (bell_poly_spec (n - m) (k - 1)) (mrows x)" for m
  have rec: "incomplete_bell_poly (n - m) (k - 1) x = Inr (B m) \<and> length (B m) = length (mrows x)"
    if "m \<in> {1..u}" for m
  proof -
    have "nat (int (n - m) - int (k - 1) + 1) \<le> ncols x"
    proof -
      from that have "1 \<le> m" "m \<le> Suc n' - k'" by (simp_all add: u)
      moreover from a have "Suc n' - k' \<le> ncols x" by (simp add: xrange_bound nk)
      ultimately show ?thesis unfolding xrange_bound nk by simp
    qed
    then show ?thesis
      by (simp add: incomplete_bell_poly_spec B_def)
  qed
  have "incomplete_bell_poly n k x = Inr (map (bell_poly_spec n k) (mrows x))"
    using a by (simp add: incomplete_bell_poly_spec)
  also have "map (bell_poly_spec n k) (mrows x)
      = map (\<lambda>i. \<Sum>m = 1..u. mrows x ! i ! (m - 1) * real ((n - 1) choose (m - 1)) * B m ! i)
          [0..<length (mrows x)]"
  proof -
    have unfold: "bell_poly_spec n k r
        = (\<Sum>m = 1..u. r ! (m - 1) * real ((n - 1) choose (m - 1)) * bell_poly_spec (n - m) (k - 1) r)" for r
    proof -
      have "bell_poly_spec n k r
          = (\<Sum>m\<leftarrow>[1..<Suc u]. r ! (m - 1) * real (n' choose (m - 1)) * bell_poly_spec (Suc n' - m) k' r)"
        unfolding nk u bell_poly_spec.simps ..
      also have "\<dots> = (\<Sum>m\<in>set [1..<Suc u]. r ! (m - 1) * real (n' choose (m - 1)) * bell_poly_spec (Suc n' - m) k' r)"
        by (rule sum_list_distinct_conv_sum_set) (rule distinct_upt)
      also have "set [1..<Suc u] = {1..u}"
        by auto
      finally show ?thesis by (simp only: nk diff_Suc_1)
    qed
    have "map (bell_poly_spec n k) (mrows x) = map (bell_poly_spec n k) (map (\<lambda>i. mrows x ! i) [0..<length (mrows x)])"
      by (simp only: map_nth)
    also have "\<dots> = map (\<lambda>i. bell_poly_spec n k (mrows x ! i)) [0..<length (mrows x)]"
      by (simp only: map_map comp_def)
    also have "\<dots> = map (\<lambda>i. \<Sum>m = 1..u. mrows x ! i ! (m - 1) * real ((n - 1) choose (m - 1)) * B m ! i)
          [0..<length (mrows x)]"
    proof (rule map_cong [OF refl])
      fix i assume "i \<in> set [0..<length (mrows x)]"
      then have i: "i < length (mrows x)" by simp
      have "B m ! i = bell_poly_spec (n - m) (k - 1) (mrows x ! i)" for m
        unfolding B_def using i by (rule nth_map)
      then show "bell_poly_spec n k (mrows x ! i)
          = (\<Sum>m = 1..u. mrows x ! i ! (m - 1) * real ((n - 1) choose (m - 1)) * B m ! i)"
        by (simp only: unfold [of "mrows x ! i"])
    qed
    finally show ?thesis .
  qed
  finally show "\<exists>B. (\<forall>m \<in> {1..nat (int n - int k + 1)}.
                 incomplete_bell_poly (n - m) (k - 1) x = Inr (B m) \<and> length (B m) = length (mrows x))
           \<and> incomplete_bell_poly n k x =
               Inr (map (\<lambda>i. \<Sum>m = 1..nat (int n - int k + 1).
                            mrows x ! i ! (m - 1) * real ((n - 1) choose (m - 1)) * B m ! i)
                      [0..<length (mrows x)])"
    unfolding u_def [symmetric] using rec by (intro exI [of _ B] conjI ballI) auto
next
  fix y
  assume a: "n \<ge> 1 \<and> k \<ge> 1 \<and> wf_matrix x \<and> nat (int n - int k + 1) \<le> ncols x"
    and y: "wf_matrix y \<and> nat (int n - int k + 1) \<le> ncols y
              \<and> map (take (nat (int n - int k + 1))) (mrows y)
                  = map (take (nat (int n - int k + 1))) (mrows x)"
  define u where "u = nat (int n - int k + 1)"
  have u: "Suc n - k \<le> u" by (simp add: u_def)
  from y have len: "length (mrows y) = length (mrows x)"
    by (metis length_map)
  have "map (bell_poly_spec n k) (mrows y) = map (bell_poly_spec n k) (mrows x)"
  proof (rule nth_equalityI)
    fix i assume "i < length (map (bell_poly_spec n k) (mrows y))"
    then have i: "i < length (mrows y)" by simp
    from y have eq: "map (take u) (mrows y) = map (take u) (mrows x)"
      by (simp add: u_def)
    have "take u (mrows y ! i) = map (take u) (mrows y) ! i"
      using i by simp
    also have "\<dots> = map (take u) (mrows x) ! i"
      by (simp only: eq)
    also have "\<dots> = take u (mrows x ! i)"
      using i len by simp
    finally have "bell_poly_spec n k (mrows y ! i) = bell_poly_spec n k (mrows x ! i)"
      using u by (rule bell_poly_spec_prefix)
    then show "map (bell_poly_spec n k) (mrows y) ! i = map (bell_poly_spec n k) (mrows x) ! i"
      using i len by simp
  qed (simp add: len)
  then show "incomplete_bell_poly n k y = incomplete_bell_poly n k x"
    using a y by (simp add: incomplete_bell_poly_spec)
qed

lemma incomplete_bell_poly_example:
  "incomplete_bell_poly 3 2 \<lparr>ncols = 3, mrows = [[2, 5, 7], [1, 1, 1]]\<rparr> = Inr [30, 3]"
  by code_simp

theorem incomplete_bell_poly_recurrence_witness:
  "\<exists>B. (\<forall>m \<in> {1..nat (int 3 - int 2 + 1)}.
          incomplete_bell_poly (3 - m) (2 - 1) \<lparr>ncols = 3, mrows = [[2, 5, 7], [1, 1, 1]]\<rparr> = Inr (B m)
          \<and> length (B m) = length (mrows \<lparr>ncols = 3, mrows = [[2, 5, 7], [1, 1, 1]]\<rparr>))
     \<and> incomplete_bell_poly 3 2 \<lparr>ncols = 3, mrows = [[2, 5, 7], [1, 1, 1]]\<rparr> =
         Inr (map (\<lambda>i. \<Sum>m = 1..nat (int 3 - int 2 + 1).
                      mrows \<lparr>ncols = 3, mrows = [[2, 5, 7], [1, 1, 1]]\<rparr> ! i ! (m - 1)
                        * real ((3 - 1) choose (m - 1)) * B m ! i)
                [0..<length (mrows \<lparr>ncols = 3, mrows = [[2, 5, 7], [1, 1, 1]]\<rparr>)])"
proof -
  have h: "(3::nat) \<ge> 1 \<and> (2::nat) \<ge> 1 \<and> wf_matrix \<lparr>ncols = 3, mrows = [[2, 5, 7], [1, 1, 1]]\<rparr>
      \<and> nat (int 3 - int 2 + 1) \<le> ncols \<lparr>ncols = 3, mrows = [[2, 5, 7], [1, 1, 1]]\<rparr>"
    by (simp add: wf_matrix_def)
  show ?thesis
    by (rule incomplete_bell_poly_recurrence [of "\<lparr>ncols = 3, mrows = [[2, 5, 7], [1, 1, 1]]\<rparr>" 3 2,
          THEN conjunct2, THEN conjunct2, THEN conjunct2, THEN mp, OF h, THEN conjunct1])
qed

section \<open>kernel.core: the hyperparameter container\<close>

text \<open>
  A bound is a pair \<open>(lower, upper)\<close>.  \<^verbatim>\<open>free_param_bounds\<close> converts the list of bounds
  to a float array, which turns a \<^verbatim>\<open>None\<close> entry into a NaN; every comparison with a NaN is
  false, so that such an entry never clamps.  \<open>None\<close> stands for it here.

  The attributes every kernel object carries.  \<^verbatim>\<open>potentials\<close> is stored and never read in
  \<^verbatim>\<open>core.py\<close>; it is left out.  A hyperprior is a callable; its type is the parameter
  \<open>'h\<close>.
\<close>

type_synonym bound = "real option \<times> real option"

record 'h attrs =
  num_dim :: int
  num_params :: int
  params :: "real list"
  fixed_params :: "bool list"
  param_bounds :: "bound list"
  enforce_bounds :: bool
  hyperpriors :: "'h list"
  is_log :: "bool list"

text \<open>\<^verbatim>\<open>scipy.finfo('d').max\<close>, the largest finite double.\<close>

definition double_max :: real where
  "double_max = (2 ^ 53 - 1) * 2 ^ 971"

text \<open>
  \<^verbatim>\<open>Kernel.__init__\<close>.  An omitted keyword argument is \<open>None\<close>.  The \<^verbatim>\<open>isinstance\<close> tests on
  \<^verbatim>\<open>num_params\<close> and \<^verbatim>\<open>num_dim\<close> hold by typing.  \<^verbatim>\<open>UniformPrior\<close> is imported from
  \<^verbatim>\<open>utils\<close>, which does not define it; it is a parameter.
\<close>

definition Kernel_init ::
  "(bound \<Rightarrow> 'h) \<Rightarrow> int \<Rightarrow> int \<Rightarrow> real list option \<Rightarrow> bool list option \<Rightarrow> bound list option
     \<Rightarrow> bool \<Rightarrow> 'h list option \<Rightarrow> bool list option \<Rightarrow> error + 'h attrs" where
  "Kernel_init UniformPrior num_dim' num_params' initial_params fixed_params' param_bounds'
       enforce_bounds' hyperpriors' is_log' =
     (if num_params' < 0 then Inl ValueError
      else if num_dim' < 1 then Inl ValueError
      else
        case (case initial_params of
                None \<Rightarrow>
                  (case fixed_params' of
                     Some fp \<Rightarrow> Inl GPArgumentError
                   | None \<Rightarrow> Inr (replicate (nat num_params') 1, replicate (nat num_params') False))
              | Some ip \<Rightarrow>
                  if int (length ip) \<noteq> num_params' then Inl ValueError
                  else (case fixed_params' of
                          None \<Rightarrow> Inr (ip, replicate (nat num_params') False)
                        | Some fp \<Rightarrow>
                            if int (length fp) \<noteq> num_params' then Inl ValueError
                            else Inr (ip, fp)))
        of Inl e \<Rightarrow> Inl e
         | Inr (ip, fp) \<Rightarrow>
        case (case param_bounds' of
                None \<Rightarrow> Inr (replicate (nat num_params') (Some 0, Some double_max))
              | Some pb \<Rightarrow> if int (length pb) \<noteq> num_params' then Inl ValueError else Inr pb)
        of Inl e \<Rightarrow> Inl e
         | Inr pb \<Rightarrow>
        case (case hyperpriors' of
                None \<Rightarrow> Inr (map UniformPrior pb)
              | Some hp \<Rightarrow> if int (length hp) \<noteq> num_params' then Inl ValueError else Inr hp)
        of Inl e \<Rightarrow> Inl e
         | Inr hp \<Rightarrow>
        case (case is_log' of
                None \<Rightarrow> Inr (replicate (nat num_params') True)
              | Some il \<Rightarrow> if int (length il) \<noteq> num_params' then Inl ValueError else Inr il)
        of Inl e \<Rightarrow> Inl e
         | Inr il \<Rightarrow>
        Inr \<lparr>num_dim = num_dim', num_params = num_params', params = ip, fixed_params = fp,
             param_bounds = pb, enforce_bounds = enforce_bounds', hyperpriors = hp, is_log = il\<rparr>)"

text \<open>
  \<^verbatim>\<open>xs[mask]\<close> and \<^verbatim>\<open>xs[mask] = vs\<close> for a boolean mask: the entries at the \<open>True\<close>
  positions, in order, are read or overwritten one after the other.  The constructor makes
  every attribute list as long as \<^verbatim>\<open>params\<close>, and \<^verbatim>\<open>set_hyperparams\<close> assigns only
  after comparing the shapes, so that mask, array and values fit wherever the code indexes.
\<close>

definition mask_select :: "'a list \<Rightarrow> bool list \<Rightarrow> 'a list" where
  "mask_select xs ms = map fst (filter snd (zip xs ms))"

fun mask_assign :: "'a list \<Rightarrow> bool list \<Rightarrow> 'a list \<Rightarrow> 'a list" where
  "mask_assign (x # xs) (m # ms) vs =
     (if m then (case vs of v # vs' \<Rightarrow> v # mask_assign xs ms vs' | [] \<Rightarrow> x # mask_assign xs ms [])
      else x # mask_assign xs ms vs)"
| "mask_assign xs [] vs = xs"
| "mask_assign [] ms vs = []"

definition free_params :: "'h attrs \<Rightarrow> real list" where
  "free_params self = mask_select (params self) (map Not (fixed_params self))"

definition free_param_bounds :: "'h attrs \<Rightarrow> bound list" where
  "free_param_bounds self = mask_select (param_bounds self) (map Not (fixed_params self))"

text \<open>
  The body of the loop under \<^verbatim>\<open>if self.enforce_bounds\<close>, for one value, and the loop over
  \<^verbatim>\<open>zip(range(0, len(new_params)), new_params, self.free_param_bounds)\<close>, which stops with
  the shorter sequence.
\<close>

definition clamp :: "real \<Rightarrow> bound \<Rightarrow> real" where
  "clamp new_param bound =
     (case fst bound of
        Some lo \<Rightarrow> if new_param < lo then lo
                   else (case snd bound of Some hi \<Rightarrow> if new_param > hi then hi else new_param
                         | None \<Rightarrow> new_param)
      | None \<Rightarrow> (case snd bound of Some hi \<Rightarrow> if new_param > hi then hi else new_param
                 | None \<Rightarrow> new_param))"

fun enforce :: "real list \<Rightarrow> bound list \<Rightarrow> real list" where
  "enforce (v # vs) (b # bs) = clamp v b # enforce vs bs"
| "enforce vs [] = vs"
| "enforce [] bs = []"

text \<open>
  \<^verbatim>\<open>Kernel.set_hyperparams\<close>.  The method mutates the object; the model returns the raised
  exception, if any, together with the object as it is after the call.
\<close>

definition Kernel_set_hyperparams :: "'h attrs \<Rightarrow> real list \<Rightarrow> error option \<times> 'h attrs" where
  "Kernel_set_hyperparams self new_params =
     (if length new_params = length (free_params self) then
        (None,
         self\<lparr>params := mask_assign (params self) (map Not (fixed_params self))
                  (if enforce_bounds self then enforce new_params (free_param_bounds self)
                   else new_params)\<rparr>)
      else (Some ValueError, self))"

text \<open>
  The arguments of a call \<^verbatim>\<open>k(Xi, Xj, ni, nj, hyper_deriv=None, symmetric=False)\<close>.  The two
  optional arguments can be left out, passed by position or passed by keyword;
  \<^verbatim>\<open>SumKernel.__call__(*args, **kwargs)\<close> tells the three apart.  Derivative orders are
  natural numbers.
\<close>

datatype 'a passed = Omitted | Positional 'a | Keyword 'a

record call =
  Xi :: "real list list"
  Xj :: "real list list"
  ni :: "nat list list"
  nj :: "nat list list"
  hyper_deriv :: "nat option passed"
  symmetric :: "bool passed"

text \<open>
  The four methods a concrete subclass of \<^verbatim>\<open>ChainRuleKernel\<close> supplies; no such subclass is
  in \<^verbatim>\<open>core.py\<close>, so they are parameters.  Each is a vectorised formula acting on every row
  of \<^verbatim>\<open>tau\<close> alike, and is given here for one row, with the hyperparameters it reads:
  \<^verbatim>\<open>_compute_k(tau)\<close>, \<^verbatim>\<open>_compute_y(tau, return_r2l2=True)\<close>, \<^verbatim>\<open>_compute_dk_dy(y, n)\<close> and
  \<^verbatim>\<open>_compute_dy_dtau(tau, b, r2l2)\<close>.
\<close>

record prims =
  compute_k :: "real list \<Rightarrow> real list \<Rightarrow> real"
  compute_y :: "real list \<Rightarrow> real list \<Rightarrow> real \<times> real"
  compute_dk_dy :: "real list \<Rightarrow> real \<Rightarrow> nat \<Rightarrow> real"
  compute_dy_dtau :: "real list \<Rightarrow> real list \<Rightarrow> nat list \<Rightarrow> real \<Rightarrow> real"

text \<open>
  The result of an evaluation: \<open>None\<close> when the call does not return, \<open>Some (Inl e)\<close> when
  it raises \<open>e\<close>, \<open>Some (Inr v)\<close> when it returns the vector \<open>v\<close>.
\<close>

type_synonym result = "(error + real list) option"

text \<open>
  The class hierarchy, as a value: the abstract base \<^verbatim>\<open>Kernel\<close>; a concrete kernel defined
  outside \<^verbatim>\<open>core.py\<close>, which inherits the hyperparameter methods and brings its own
  \<^verbatim>\<open>__call__\<close>; a chain-rule kernel with its four primitives; and \<^verbatim>\<open>BinaryKernel\<close>, whose
  two subclasses differ in \<^verbatim>\<open>__call__\<close> only.  Every kernel is given with the attributes it
  holds at one moment, a combinator with its own copies of the concatenated attribute
  arrays beside its two children.  A call of \<^verbatim>\<open>__call__\<close> changes no attribute and reads
  such a value.
\<close>

datatype binop = SumOp | ProductOp

datatype 'h kernel =
    Kernel "'h attrs"
  | ConcreteKernel "'h attrs" "'h attrs \<Rightarrow> call \<Rightarrow> result"
  | ChainRuleKernel "'h attrs" prims
  | BinaryKernel binop "'h attrs" "'h kernel" "'h kernel"

abbreviation SumKernel :: "'h attrs \<Rightarrow> 'h kernel \<Rightarrow> 'h kernel \<Rightarrow> 'h kernel" where
  "SumKernel \<equiv> BinaryKernel SumOp"

abbreviation ProductKernel :: "'h attrs \<Rightarrow> 'h kernel \<Rightarrow> 'h kernel \<Rightarrow> 'h kernel" where
  "ProductKernel \<equiv> BinaryKernel ProductOp"

fun attrs_of :: "'h kernel \<Rightarrow> 'h attrs" where
  "attrs_of (Kernel a) = a"
| "attrs_of (ConcreteKernel a f) = a"
| "attrs_of (ChainRuleKernel a p) = a"
| "attrs_of (BinaryKernel op a k1 k2) = a"

text \<open>
  Kernels are objects.  A combinator holds references to its children, \<^verbatim>\<open>k + k\<close> holds one
  object twice, and \<^verbatim>\<open>set_hyperparams\<close> mutates the objects it reaches.  The store lists
  the attributes of the kernel objects in the order of their creation, and the address of an
  object is its index.  What no method changes after construction, the class of the object,
  its \<^verbatim>\<open>__call__\<close> or primitives and the two children of a combinator, is kept with the
  address.  \<open>snapshot\<close> reads the value of a kernel off the store.
\<close>

type_synonym addr = nat

type_synonym 'h store = "'h attrs list"

datatype 'h kernel_ref =
    KernelRef addr
  | ConcreteKernelRef addr "'h attrs \<Rightarrow> call \<Rightarrow> result"
  | ChainRuleKernelRef addr prims
  | BinaryKernelRef binop addr "'h kernel_ref" "'h kernel_ref"

abbreviation SumKernelRef :: "addr \<Rightarrow> 'h kernel_ref \<Rightarrow> 'h kernel_ref \<Rightarrow> 'h kernel_ref" where
  "SumKernelRef \<equiv> BinaryKernelRef SumOp"

abbreviation ProductKernelRef :: "addr \<Rightarrow> 'h kernel_ref \<Rightarrow> 'h kernel_ref \<Rightarrow> 'h kernel_ref" where
  "ProductKernelRef \<equiv> BinaryKernelRef ProductOp"

fun address :: "'h kernel_ref \<Rightarrow> addr" where
  "address (KernelRef r) = r"
| "address (ConcreteKernelRef r f) = r"
| "address (ChainRuleKernelRef r p) = r"
| "address (BinaryKernelRef op r k1 k2) = r"

fun snapshot :: "'h store \<Rightarrow> 'h kernel_ref \<Rightarrow> 'h kernel" where
  "snapshot s (KernelRef r) = Kernel (s ! r)"
| "snapshot s (ConcreteKernelRef r f) = ConcreteKernel (s ! r) f"
| "snapshot s (ChainRuleKernelRef r p) = ChainRuleKernel (s ! r) p"
| "snapshot s (BinaryKernelRef op r k1 k2) = BinaryKernel op (s ! r) (snapshot s k1) (snapshot s k2)"

text \<open>
  \<^verbatim>\<open>set_hyperparams\<close>: the inherited method on every kernel but a combinator, and
  \<^verbatim>\<open>BinaryKernel.set_hyperparams\<close> on a combinator.  The model returns the raised
  exception, if any, together with the store as it is after the call.  \<^verbatim>\<open>num_fixed_k1\<close> is
  the source's name for \<^verbatim>\<open>sum(~self.k1.fixed_params)\<close>, the number of free parameters of
  \<open>k1\<close>.  The second child is called on the store the first call leaves, so that an object
  both children reach ends with what the second call writes.  A child that enforces its
  bounds overwrites entries of the slice it was handed; the combinator has copied the values
  into its own \<^verbatim>\<open>params\<close> before, and the other child receives a disjoint slice, so no
  kernel reads an overwritten entry.
\<close>

fun set_hyperparams :: "'h kernel_ref \<Rightarrow> real list \<Rightarrow> 'h store \<Rightarrow> error option \<times> 'h store" where
  "set_hyperparams (KernelRef r) new_params s =
     (case Kernel_set_hyperparams (s ! r) new_params of (e, self') \<Rightarrow> (e, s[r := self']))"
| "set_hyperparams (ConcreteKernelRef r f) new_params s =
     (case Kernel_set_hyperparams (s ! r) new_params of (e, self') \<Rightarrow> (e, s[r := self']))"
| "set_hyperparams (ChainRuleKernelRef r p) new_params s =
     (case Kernel_set_hyperparams (s ! r) new_params of (e, self') \<Rightarrow> (e, s[r := self']))"
| "set_hyperparams (BinaryKernelRef op r k1 k2) new_params s =
     (if length new_params = length (free_params (s ! r)) then
        let s = s[r := (s ! r)\<lparr>params :=
                  mask_assign (params (s ! r)) (map Not (fixed_params (s ! r))) new_params\<rparr>];
            num_fixed_k1 = length (filter Not (fixed_params (s ! address k1)))
        in case set_hyperparams k1 (take num_fixed_k1 new_params) s of
             (Some e, s) \<Rightarrow> (Some e, s)
           | (None, s) \<Rightarrow> set_hyperparams k2 (drop num_fixed_k1 new_params) s
      else (Some ValueError, s))"

text \<open>
  \<^verbatim>\<open>BinaryKernel.__init__\<close>.  Both operands are kernels by typing, so the \<^verbatim>\<open>TypeError\<close>
  branch is not reachable.  \<^verbatim>\<open>enforce_bounds\<close> is not passed on and takes its default.  The
  new object is the last one of the store.  \<^verbatim>\<open>Kernel.__add__\<close> and \<^verbatim>\<open>Kernel.__mul__\<close>
  call the constructor, with whatever two kernels they are given.
\<close>

definition BinaryKernel_init ::
  "(bound \<Rightarrow> 'h) \<Rightarrow> binop \<Rightarrow> 'h kernel_ref \<Rightarrow> 'h kernel_ref \<Rightarrow> 'h store
     \<Rightarrow> error + 'h kernel_ref \<times> 'h store" where
  "BinaryKernel_init UniformPrior op k1 k2 s =
     (if num_dim (s ! address k1) \<noteq> num_dim (s ! address k2) then Inl ValueError
      else
        case Kernel_init UniformPrior
               (num_dim (s ! address k1))
               (num_params (s ! address k1) + num_params (s ! address k2))
               (Some (params (s ! address k1) @ params (s ! address k2)))
               (Some (fixed_params (s ! address k1) @ fixed_params (s ! address k2)))
               (Some (param_bounds (s ! address k1) @ param_bounds (s ! address k2)))
               False
               (Some (hyperpriors (s ! address k1) @ hyperpriors (s ! address k2)))
               (Some (is_log (s ! address k1) @ is_log (s ! address k2)))
        of Inl e \<Rightarrow> Inl e
         | Inr self \<Rightarrow> Inr (BinaryKernelRef op (length s) k1 k2, s @ [self]))"

definition Kernel_add ::
  "(bound \<Rightarrow> 'h) \<Rightarrow> 'h kernel_ref \<Rightarrow> 'h kernel_ref \<Rightarrow> 'h store \<Rightarrow> error + 'h kernel_ref \<times> 'h store" where
  "Kernel_add UniformPrior self other s = BinaryKernel_init UniformPrior SumOp self other s"

definition Kernel_mul ::
  "(bound \<Rightarrow> 'h) \<Rightarrow> 'h kernel_ref \<Rightarrow> 'h kernel_ref \<Rightarrow> 'h store \<Rightarrow> error + 'h kernel_ref \<times> 'h store" where
  "Kernel_mul UniformPrior self other s = BinaryKernel_init UniformPrior ProductOp self other s"


subsection \<open>What the constructors establish\<close>

text \<open>
  The length checks of \<^verbatim>\<open>Kernel.__init__\<close>.  For a combinator also what
  \<^verbatim>\<open>BinaryKernel.__init__\<close> passes for the attributes no method changes afterwards, and
  that its children were there when it was created: their addresses are smaller.
\<close>

definition wf_attrs :: "'h attrs \<Rightarrow> bool" where
  "wf_attrs a \<longleftrightarrow>
     1 \<le> num_dim a \<and> 0 \<le> num_params a
     \<and> int (length (params a)) = num_params a
     \<and> int (length (fixed_params a)) = num_params a
     \<and> int (length (param_bounds a)) = num_params a
     \<and> int (length (hyperpriors a)) = num_params a
     \<and> int (length (is_log a)) = num_params a"

fun wf_kernel :: "'h store \<Rightarrow> 'h kernel_ref \<Rightarrow> bool" where
  "wf_kernel s (KernelRef r) = (r < length s \<and> wf_attrs (s ! r))"
| "wf_kernel s (ConcreteKernelRef r f) = (r < length s \<and> wf_attrs (s ! r))"
| "wf_kernel s (ChainRuleKernelRef r p) = (r < length s \<and> wf_attrs (s ! r))"
| "wf_kernel s (BinaryKernelRef op r k1 k2) =
     (r < length s \<and> wf_attrs (s ! r) \<and> \<not> enforce_bounds (s ! r)
      \<and> fixed_params (s ! r) = fixed_params (s ! address k1) @ fixed_params (s ! address k2)
      \<and> address k1 < r \<and> address k2 < r
      \<and> wf_kernel s k1 \<and> wf_kernel s k2)"

text \<open>The addresses of the objects a kernel reaches.\<close>

fun refs :: "'h kernel_ref \<Rightarrow> addr set" where
  "refs (KernelRef r) = {r}"
| "refs (ConcreteKernelRef r f) = {r}"
| "refs (ChainRuleKernelRef r p) = {r}"
| "refs (BinaryKernelRef op r k1 k2) = insert r (refs k1 \<union> refs k2)"

text \<open>
  The invariant of a combinator: each attribute array is the concatenation of the children's,
  \<open>k1\<close> first.
\<close>

fun concat_invariant :: "'h kernel \<Rightarrow> bool" where
  "concat_invariant (BinaryKernel op a k1 k2) =
     (params a = params (attrs_of k1) @ params (attrs_of k2)
      \<and> fixed_params a = fixed_params (attrs_of k1) @ fixed_params (attrs_of k2)
      \<and> param_bounds a = param_bounds (attrs_of k1) @ param_bounds (attrs_of k2)
      \<and> hyperpriors a = hyperpriors (attrs_of k1) @ hyperpriors (attrs_of k2)
      \<and> is_log a = is_log (attrs_of k1) @ is_log (attrs_of k2))"
| "concat_invariant k = True"

text \<open>
  The values \<^verbatim>\<open>Kernel.set_hyperparams\<close> assigns: the incoming ones, clamped if asked.  And
  what a call of \<^verbatim>\<open>set_hyperparams\<close> leaves of a store: the same objects, with other
  \<^verbatim>\<open>params\<close> of the same length.
\<close>

definition written :: "'h attrs \<Rightarrow> real list \<Rightarrow> real list" where
  "written a new = (if enforce_bounds a then enforce new (free_param_bounds a) else new)"

definition params_only :: "'h store \<Rightarrow> 'h store \<Rightarrow> bool" where
  "params_only s s' \<longleftrightarrow>
     length s' = length s
     \<and> list_all2 (\<lambda>a a'. a' = a\<lparr>params := params a'\<rparr> \<and> length (params a') = length (params a)) s s'"

lemma Kernel_init_wf:
  "Kernel_init U d n ip fp pb eb hp il = Inr a \<Longrightarrow> wf_attrs a"
  by (auto simp: Kernel_init_def wf_attrs_def split: if_splits option.splits sum.splits prod.splits)

lemma length_mask_assign [simp]: "length (mask_assign xs ms vs) = length xs"
  by (induction xs ms vs rule: mask_assign.induct) (auto split: list.splits)


lemma length_mask_select:
  "length ms = length xs \<Longrightarrow> length (mask_select xs ms) = length (filter (\<lambda>b. b) ms)"
proof (induction xs arbitrary: ms)
  case (Cons x xs)
  then show ?case by (cases ms) (auto simp: mask_select_def)
qed (simp add: mask_select_def)


lemma length_enforce [simp]: "length (enforce vs bs) = length vs"
  by (induction vs bs rule: enforce.induct) auto


lemma filter_id_map_Not: "length (filter (\<lambda>b. b) (map Not fs)) = length (filter Not fs)"
  by (induction fs) auto



lemma length_free_params:
  "wf_attrs a \<Longrightarrow> length (free_params a) = length (filter Not (fixed_params a))"
  by (simp add: free_params_def wf_attrs_def length_mask_select comp_def)





lemma length_written:
  "wf_attrs a \<Longrightarrow> length new = length (filter Not (fixed_params a)) \<Longrightarrow> length (written a new) = length new"
  by (simp add: written_def)

lemma Kernel_set_hyperparams_ok:
  assumes "wf_attrs a" and "length new = length (filter Not (fixed_params a))"
  shows "Kernel_set_hyperparams a new
       = (None, a\<lparr>params := mask_assign (params a) (map Not (fixed_params a)) (written a new)\<rparr>)"
  using assms by (simp add: Kernel_set_hyperparams_def length_free_params written_def)

lemma Kernel_set_hyperparams_error:
  assumes "wf_attrs a" and "length new \<noteq> length (filter Not (fixed_params a))"
  shows "Kernel_set_hyperparams a new = (Some ValueError, a)"
  using assms by (simp add: Kernel_set_hyperparams_def length_free_params)


subsection \<open>The store under \<open>set_hyperparams\<close>\<close>

lemma params_only_refl [simp]: "params_only s s"
  by (simp add: params_only_def list_all2_same)

lemma params_only_nth:
  assumes "params_only s s'" and "i < length s"
  shows "s' ! i = (s ! i)\<lparr>params := params (s' ! i)\<rparr>"
    and "length (params (s' ! i)) = length (params (s ! i))"
  using assms by (auto simp: params_only_def dest: list_all2_nthD)

lemma params_only_length: "params_only s s' \<Longrightarrow> length s' = length s"
  by (simp add: params_only_def)

lemma params_only_fields:
  assumes "params_only s s'" and "i < length s"
  shows "fixed_params (s' ! i) = fixed_params (s ! i)"
    and "enforce_bounds (s' ! i) = enforce_bounds (s ! i)"
    and "param_bounds (s' ! i) = param_bounds (s ! i)"
    and "hyperpriors (s' ! i) = hyperpriors (s ! i)"
    and "is_log (s' ! i) = is_log (s ! i)"
    and "wf_attrs (s' ! i) = wf_attrs (s ! i)"
proof -
  define p where "p = params (s' ! i)"
  have eq: "s' ! i = (s ! i)\<lparr>params := p\<rparr>" and len: "length p = length (params (s ! i))"
    unfolding p_def using assms by (rule params_only_nth)+
  show "fixed_params (s' ! i) = fixed_params (s ! i)"
    and "enforce_bounds (s' ! i) = enforce_bounds (s ! i)"
    and "param_bounds (s' ! i) = param_bounds (s ! i)"
    and "hyperpriors (s' ! i) = hyperpriors (s ! i)"
    and "is_log (s' ! i) = is_log (s ! i)"
    and "wf_attrs (s' ! i) = wf_attrs (s ! i)"
    by (simp_all add: eq len wf_attrs_def)
qed

lemma params_only_trans:
  assumes "params_only s s'" and "params_only s' s''"
  shows "params_only s s''"
proof -
  have len: "length s' = length s" "length s'' = length s"
    using assms by (simp_all add: params_only_def)
  have "s'' ! i = (s ! i)\<lparr>params := params (s'' ! i)\<rparr>
      \<and> length (params (s'' ! i)) = length (params (s ! i))" if i: "i < length s" for i
  proof -
    have a: "s' ! i = (s ! i)\<lparr>params := params (s' ! i)\<rparr>"
      and la: "length (params (s' ! i)) = length (params (s ! i))"
      using assms(1) i by (rule params_only_nth)+
    from i len have i': "i < length s'" by simp
    have b: "s'' ! i = (s' ! i)\<lparr>params := params (s'' ! i)\<rparr>"
      and lb: "length (params (s'' ! i)) = length (params (s' ! i))"
      using assms(2) i' by (rule params_only_nth)+
    have "s'' ! i = (s ! i)\<lparr>params := params (s'' ! i)\<rparr>"
      by (subst b, subst a) simp
    with la lb show ?thesis by simp
  qed
  then show ?thesis
    using len by (simp add: params_only_def list_all2_conv_all_nth)
qed

lemma params_only_update:
  assumes "r < length s" and "length p = length (params (s ! r))"
  shows "params_only s (s[r := (s ! r)\<lparr>params := p\<rparr>])"
  using assms by (simp add: params_only_def list_all2_conv_all_nth nth_list_update)

lemma wf_kernel_address: "wf_kernel s k \<Longrightarrow> address k < length s \<and> wf_attrs (s ! address k)"
  by (cases k) simp_all

lemma refs_le: "wf_kernel s k \<Longrightarrow> i \<in> refs k \<Longrightarrow> i \<le> address k"
  by (induction k) auto

lemma address_in_refs [simp]: "address k \<in> refs k"
  by (cases k) simp_all

lemma wf_kernel_params_only:
  assumes "params_only s s'" and "wf_kernel s k"
  shows "wf_kernel s' k"
  using assms(2)
proof (induction k)
  case (BinaryKernelRef op r k1 k2)
  then have r: "r < length s" and a: "address k1 < length s" "address k2 < length s"
    by auto
  from BinaryKernelRef show ?case
    using params_only_fields [OF assms(1) r] params_only_fields [OF assms(1) a(1)]
      params_only_fields [OF assms(1) a(2)] params_only_length [OF assms(1)]
    by simp
qed (use assms(1) in \<open>auto simp: params_only_fields params_only_length\<close>)

lemma set_hyperparams_leaf:
  assumes "r < length s" and "wf_attrs (s ! r)"
    and "length new = length (filter Not (fixed_params (s ! r)))"
  shows "params_only s (s[r := (s ! r)\<lparr>params :=
            mask_assign (params (s ! r)) (map Not (fixed_params (s ! r))) (written (s ! r) new)\<rparr>])"
  using assms(1) by (rule params_only_update) simp

lemma set_hyperparams_ok:
  "wf_kernel s k \<Longrightarrow> length new = length (filter Not (fixed_params (s ! address k))) \<Longrightarrow>
     \<exists>s'. set_hyperparams k new s = (None, s') \<and> params_only s s'
        \<and> (\<forall>i. i \<notin> refs k \<longrightarrow> s' ! i = s ! i)
        \<and> s' ! address k = (s ! address k)\<lparr>params :=
              mask_assign (params (s ! address k)) (map Not (fixed_params (s ! address k)))
                (written (s ! address k) new)\<rparr>"
proof (induction k arbitrary: new s)
  case (KernelRef r)
  then show ?case
    by (simp add: Kernel_set_hyperparams_ok set_hyperparams_leaf)
next
  case (ConcreteKernelRef r f)
  then show ?case
    by (simp add: Kernel_set_hyperparams_ok set_hyperparams_leaf)
next
  case (ChainRuleKernelRef r p)
  then show ?case
    by (simp add: Kernel_set_hyperparams_ok set_hyperparams_leaf)
next
  case (BinaryKernelRef op r k1 k2)
  define a where "a = s ! r"
  define n1 where "n1 = length (filter Not (fixed_params (s ! address k1)))"
  define s0 where "s0 = s[r := a\<lparr>params := mask_assign (params a) (map Not (fixed_params a)) new\<rparr>]"
  from BinaryKernelRef.prems(1)
  have r: "r < length s" and wfa: "wf_attrs a" and plain: "\<not> enforce_bounds a"
    and fx: "fixed_params a = fixed_params (s ! address k1) @ fixed_params (s ! address k2)"
    and older: "address k1 < r" "address k2 < r"
    and wf: "wf_kernel s k1" "wf_kernel s k2"
    by (simp_all add: a_def)
  have po0: "params_only s s0"
    unfolding s0_def a_def using r by (rule params_only_update) simp
  have fr0: "s0 ! i = s ! i" if "i \<noteq> r" for i
    using that by (simp add: s0_def)
  have own0: "s0 ! r = a\<lparr>params := mask_assign (params a) (map Not (fixed_params a)) new\<rparr>"
    using r by (simp add: s0_def)
  from BinaryKernelRef.prems(2) fx
  have len: "length new = n1 + length (filter Not (fixed_params (s ! address k2)))"
    by (simp add: n1_def a_def)
  have at1: "s0 ! address k1 = s ! address k1" and at2: "s0 ! address k2 = s ! address k2"
    using older by (simp_all add: fr0)
  have l1: "length (take n1 new) = length (filter Not (fixed_params (s0 ! address k1)))"
    using len by (simp add: at1 n1_def)
  have wf1: "wf_kernel s0 k1"
    using po0 wf(1) by (rule wf_kernel_params_only)
  from BinaryKernelRef.IH(1) [OF wf1 l1] obtain s1 where
    s1: "set_hyperparams k1 (take n1 new) s0 = (None, s1)" "params_only s0 s1"
      "\<forall>i. i \<notin> refs k1 \<longrightarrow> s1 ! i = s0 ! i"
    by blast
  have po1: "params_only s s1"
    using po0 s1(2) by (rule params_only_trans)
  have a2: "address k2 < length s"
    using wf(2) by (simp add: wf_kernel_address)
  have l2: "length (drop n1 new) = length (filter Not (fixed_params (s1 ! address k2)))"
    using len by (simp add: params_only_fields(1) [OF po1 a2])
  have wf2: "wf_kernel s1 k2"
    using po1 wf(2) by (rule wf_kernel_params_only)
  from BinaryKernelRef.IH(2) [OF wf2 l2] obtain s2 where
    s2: "set_hyperparams k2 (drop n1 new) s1 = (None, s2)" "params_only s1 s2"
      "\<forall>i. i \<notin> refs k2 \<longrightarrow> s2 ! i = s1 ! i"
    by blast
  have "length new = length (free_params a)"
    using BinaryKernelRef.prems(2) wfa by (simp add: length_free_params a_def)
  then have run: "set_hyperparams (BinaryKernelRef op r k1 k2) new s = (None, s2)"
    using s1(1) s2(1)
    by (simp add: a_def [symmetric] s0_def [symmetric] at1 n1_def [symmetric])
  have out1: "r \<notin> refs k1"
    using refs_le [OF wf(1)] older(1) by fastforce
  have out2: "r \<notin> refs k2"
    using refs_le [OF wf(2)] older(2) by fastforce
  have own: "s2 ! r = a\<lparr>params := mask_assign (params a) (map Not (fixed_params a)) (written a new)\<rparr>"
    using s2(3) s1(3) out1 out2 own0 plain by (simp add: written_def)
  have frame: "\<forall>i. i \<notin> refs (BinaryKernelRef op r k1 k2) \<longrightarrow> s2 ! i = s ! i"
    using s2(3) s1(3) fr0 by simp
  have "params_only s s2"
    using po1 s2(2) by (rule params_only_trans)
  with run own frame show ?case
    by (simp add: a_def)
qed

text \<open>
  A call that succeeds leaves every kernel of the store as the constructors made it.
\<close>

lemma set_hyperparams_keeps_wf:
  assumes "wf_kernel s k" and "length new = length (filter Not (fixed_params (s ! address k)))"
    and "wf_kernel s c"
  shows "\<exists>s'. set_hyperparams k new s = (None, s') \<and> wf_kernel s' c"
proof -
  from set_hyperparams_ok [OF assms(1,2)] obtain s' where
    "set_hyperparams k new s = (None, s')" "params_only s s'"
    by blast
  with assms(3) show ?thesis
    by (auto intro: wf_kernel_params_only)
qed



lemma BinaryKernel_init_wf:
  assumes "BinaryKernel_init U op k1 k2 s = Inr (c, s')" and "wf_kernel s k1" and "wf_kernel s k2"
  shows "wf_kernel s' c \<and> concat_invariant (snapshot s' c)
     \<and> c = BinaryKernelRef op (length s) k1 k2 \<and> take (length s) s' = s \<and> length s' = Suc (length s)"
proof -
  define a1 where "a1 = s ! address k1"
  define a2 where "a2 = s ! address k2"
  from assms(1) obtain a where
    a: "Kernel_init U (num_dim a1) (num_params a1 + num_params a2)
          (Some (params a1 @ params a2)) (Some (fixed_params a1 @ fixed_params a2))
          (Some (param_bounds a1 @ param_bounds a2)) False
          (Some (hyperpriors a1 @ hyperpriors a2)) (Some (is_log a1 @ is_log a2)) = Inr a"
    and c: "c = BinaryKernelRef op (length s) k1 k2" and s': "s' = s @ [a]"
    by (auto simp: BinaryKernel_init_def a1_def a2_def split: if_splits sum.splits)
  from a have wfa: "wf_attrs a" by (rule Kernel_init_wf)
  from a have fields: "params a = params a1 @ params a2"
    "fixed_params a = fixed_params a1 @ fixed_params a2"
    "param_bounds a = param_bounds a1 @ param_bounds a2"
    "hyperpriors a = hyperpriors a1 @ hyperpriors a2"
    "is_log a = is_log a1 @ is_log a2"
    "\<not> enforce_bounds a"
    by (auto simp: Kernel_init_def split: if_splits)
  have lt: "address k1 < length s" "address k2 < length s"
    using assms(2,3) by (simp_all add: wf_kernel_address)
  have po: "wf_kernel (s @ [a]) k" if "wf_kernel s k" for k :: "'a kernel_ref"
    using that by (induction k) (auto simp: nth_append)
  have at: "attrs_of (snapshot s' k) = s' ! address k" for k :: "'a kernel_ref"
    by (cases k) simp_all
  have own: "s' ! length s = a" and ch: "s' ! address k1 = a1" "s' ! address k2 = a2"
    using lt by (simp_all add: s' nth_append a1_def a2_def)
  have "wf_kernel s' c"
    using wfa fields lt po [OF assms(2)] po [OF assms(3)] ch own
    by (simp add: c s' [symmetric]) (simp add: s')
  moreover have "concat_invariant (snapshot s' c)"
    using fields by (simp add: c at own ch)
  ultimately show ?thesis
    by (simp add: c s')
qed

lemma BinaryKernel_init_ok:
  assumes "wf_kernel s k1" and "wf_kernel s k2"
    and "num_dim (s ! address k1) = num_dim (s ! address k2)"
  shows "\<exists>c s'. BinaryKernel_init U op k1 k2 s = Inr (c, s')"
proof -
  have "wf_attrs (s ! address k1)" "wf_attrs (s ! address k2)"
    using assms(1,2) by (simp_all add: wf_kernel_address)
  then show ?thesis
    using assms(3) by (simp add: BinaryKernel_init_def Kernel_init_def wf_attrs_def)
qed

text \<open>
  Claim C7.  On a Sum or Product combinator, \<open>set_hyperparams\<close> with as many values as the
  combinator has free parameters writes them to the combinator's own \<open>params\<close>, then calls
  \<open>set_hyperparams\<close> of \<open>k1\<close> with the first \<open>count (not k1.fixed_params)\<close> values and then
  \<open>set_hyperparams\<close> of \<open>k2\<close> with the others, on the store the first call leaves; both calls
  succeed, and the combinator's call returns with the store the second leaves.  With any
  other number of values it raises \<open>ValueError\<close> and nothing is changed.
\<close>

theorem BinaryKernel_set_hyperparams_splits:
  assumes "wf_kernel s (BinaryKernelRef op r k1 k2)"
  shows "(length new_params = length (free_params (s ! r)) \<longrightarrow>
           (\<exists>s1 s2.
              set_hyperparams k1 (take (length (filter Not (fixed_params (s ! address k1)))) new_params)
                (s[r := (s ! r)\<lparr>params :=
                     mask_assign (params (s ! r)) (map Not (fixed_params (s ! r))) new_params\<rparr>])
                = (None, s1)
            \<and> set_hyperparams k2 (drop (length (filter Not (fixed_params (s ! address k1)))) new_params) s1
                = (None, s2)
            \<and> set_hyperparams (BinaryKernelRef op r k1 k2) new_params s = (None, s2)))
       \<and> (length new_params \<noteq> length (free_params (s ! r)) \<longrightarrow>
            set_hyperparams (BinaryKernelRef op r k1 k2) new_params s = (Some ValueError, s))"
proof (intro conjI impI)
  assume len0: "length new_params = length (free_params (s ! r))"
  define a where "a = s ! r"
  define n1 where "n1 = length (filter Not (fixed_params (s ! address k1)))"
  define s0 where "s0 = s[r := a\<lparr>params := mask_assign (params a) (map Not (fixed_params a)) new_params\<rparr>]"
  from assms
  have r: "r < length s" and wfa: "wf_attrs a"
    and fx: "fixed_params a = fixed_params (s ! address k1) @ fixed_params (s ! address k2)"
    and older: "address k1 < r" "address k2 < r"
    and wf: "wf_kernel s k1" "wf_kernel s k2"
    by (simp_all add: a_def)
  have po0: "params_only s s0"
    unfolding s0_def a_def using r by (rule params_only_update) simp
  have at1: "s0 ! address k1 = s ! address k1"
    using older by (simp add: s0_def)
  from len0 wfa fx
  have len: "length new_params = n1 + length (filter Not (fixed_params (s ! address k2)))"
    by (simp add: length_free_params n1_def a_def)
  have l1: "length (take n1 new_params) = length (filter Not (fixed_params (s0 ! address k1)))"
    using len by (simp add: at1 n1_def)
  have wf1: "wf_kernel s0 k1"
    using po0 wf(1) by (rule wf_kernel_params_only)
  from set_hyperparams_ok [OF wf1 l1] obtain s1 where
    s1: "set_hyperparams k1 (take n1 new_params) s0 = (None, s1)" "params_only s0 s1"
    by blast
  have po1: "params_only s s1"
    using po0 s1(2) by (rule params_only_trans)
  have a2: "address k2 < length s"
    using wf(2) by (simp add: wf_kernel_address)
  have l2: "length (drop n1 new_params) = length (filter Not (fixed_params (s1 ! address k2)))"
    using len by (simp add: params_only_fields(1) [OF po1 a2])
  have wf2: "wf_kernel s1 k2"
    using po1 wf(2) by (rule wf_kernel_params_only)
  from set_hyperparams_ok [OF wf2 l2] obtain s2 where
    s2: "set_hyperparams k2 (drop n1 new_params) s1 = (None, s2)"
    by blast
  have "set_hyperparams (BinaryKernelRef op r k1 k2) new_params s = (None, s2)"
    using len0 s1(1) s2
    by (simp add: a_def [symmetric] s0_def [symmetric] at1 n1_def [symmetric])
  with s1(1) s2 show "\<exists>s1 s2.
              set_hyperparams k1 (take (length (filter Not (fixed_params (s ! address k1)))) new_params)
                (s[r := (s ! r)\<lparr>params :=
                     mask_assign (params (s ! r)) (map Not (fixed_params (s ! r))) new_params\<rparr>])
                = (None, s1)
            \<and> set_hyperparams k2 (drop (length (filter Not (fixed_params (s ! address k1)))) new_params) s1
                = (None, s2)
            \<and> set_hyperparams (BinaryKernelRef op r k1 k2) new_params s = (None, s2)"
    unfolding n1_def s0_def a_def by blast
next
  assume "length new_params \<noteq> length (free_params (s ! r))"
  then show "set_hyperparams (BinaryKernelRef op r k1 k2) new_params s = (Some ValueError, s)"
    by simp
qed

subsection \<open>The concatenation invariant under \<open>set_hyperparams\<close>\<close>

text \<open>
  A mask assignment to a concatenation splits at the seam.  A combinator whose children
  reach no common object and do not enforce bounds therefore keeps its \<open>params\<close> equal to
  the concatenation of theirs.
\<close>

lemma mask_assign_append:
  "length xs = length ms \<Longrightarrow> length vs = length (filter (\<lambda>b. b) ms) \<Longrightarrow>
     mask_assign (xs @ ys) (ms @ ns) (vs @ ws) = mask_assign xs ms vs @ mask_assign ys ns ws"
proof (induction xs ms vs rule: mask_assign.induct)
  case (1 x xs m ms vs)
  then show ?case by (cases vs; cases m) (auto split: list.splits)
next
  case (2 xs vs)
  then show ?case by simp
next
  case (3 ms vs)
  then show ?case by simp
qed

lemma attrs_of_snapshot [simp]: "attrs_of (snapshot s k) = s ! address k"
  by (cases k) simp_all

lemma set_hyperparams_keeps_concatenation:
  assumes wf: "wf_kernel s (BinaryKernelRef op r k1 k2)"
    and inv: "concat_invariant (snapshot s (BinaryKernelRef op r k1 k2))"
    and plain: "\<not> enforce_bounds (s ! address k1)" "\<not> enforce_bounds (s ! address k2)"
    and apart: "refs k1 \<inter> refs k2 = {}"
    and len0: "length new_params = length (free_params (s ! r))"
  shows "\<exists>s'. set_hyperparams (BinaryKernelRef op r k1 k2) new_params s = (None, s')
           \<and> concat_invariant (snapshot s' (BinaryKernelRef op r k1 k2))"
proof -
  define a where "a = s ! r"
  define a1 where "a1 = s ! address k1"
  define a2 where "a2 = s ! address k2"
  define n1 where "n1 = length (filter Not (fixed_params a1))"
  define s0 where "s0 = s[r := a\<lparr>params := mask_assign (params a) (map Not (fixed_params a)) new_params\<rparr>]"
  from wf
  have r: "r < length s" and wfa: "wf_attrs a"
    and fx: "fixed_params a = fixed_params a1 @ fixed_params a2"
    and older: "address k1 < r" "address k2 < r"
    and wfk: "wf_kernel s k1" "wf_kernel s k2"
    by (simp_all add: a_def a1_def a2_def)
  from inv have cat: "params a = params a1 @ params a2"
    "param_bounds a = param_bounds a1 @ param_bounds a2"
    "hyperpriors a = hyperpriors a1 @ hyperpriors a2"
    "is_log a = is_log a1 @ is_log a2"
    by (simp_all add: a_def a1_def a2_def)
  have po0: "params_only s s0"
    unfolding s0_def a_def using r by (rule params_only_update) simp
  have at1: "s0 ! address k1 = a1" and at2: "s0 ! address k2 = a2"
    using older by (simp_all add: s0_def a1_def a2_def)
  have own0: "s0 ! r = a\<lparr>params := mask_assign (params a) (map Not (fixed_params a)) new_params\<rparr>"
    using r by (simp add: s0_def)
  from len0 wfa fx
  have len: "length new_params = n1 + length (filter Not (fixed_params a2))"
    by (simp add: length_free_params n1_def a_def)
  have l1: "length (take n1 new_params) = length (filter Not (fixed_params (s0 ! address k1)))"
    using len by (simp add: at1 n1_def)
  have wf1: "wf_kernel s0 k1"
    using po0 wfk(1) by (rule wf_kernel_params_only)
  from set_hyperparams_ok [OF wf1 l1] obtain s1 where
    s1: "set_hyperparams k1 (take n1 new_params) s0 = (None, s1)" "params_only s0 s1"
      "\<forall>i. i \<notin> refs k1 \<longrightarrow> s1 ! i = s0 ! i"
      "s1 ! address k1 = a1\<lparr>params :=
         mask_assign (params a1) (map Not (fixed_params a1)) (written a1 (take n1 new_params))\<rparr>"
    unfolding at1 by blast
  have po1: "params_only s s1"
    using po0 s1(2) by (rule params_only_trans)
  have out2: "address k2 \<notin> refs k1"
    using apart address_in_refs [of k2] by blast
  have out1: "address k1 \<notin> refs k2"
    using apart address_in_refs [of k1] by blast
  have at2': "s1 ! address k2 = a2"
    using s1(3) out2 at2 by simp
  have l2: "length (drop n1 new_params) = length (filter Not (fixed_params (s1 ! address k2)))"
    using len by (simp add: at2')
  have wf2: "wf_kernel s1 k2"
    using po1 wfk(2) by (rule wf_kernel_params_only)
  from set_hyperparams_ok [OF wf2 l2] obtain s2 where
    s2: "set_hyperparams k2 (drop n1 new_params) s1 = (None, s2)"
      "\<forall>i. i \<notin> refs k2 \<longrightarrow> s2 ! i = s1 ! i"
      "s2 ! address k2 = a2\<lparr>params :=
         mask_assign (params a2) (map Not (fixed_params a2)) (written a2 (drop n1 new_params))\<rparr>"
    unfolding at2' by blast
  have run: "set_hyperparams (BinaryKernelRef op r k1 k2) new_params s = (None, s2)"
    using len0 s1(1) s2(1)
    by (simp add: a_def [symmetric] s0_def [symmetric] at1 n1_def [symmetric])
  have nr1: "r \<notin> refs k1"
    using refs_le [OF wfk(1)] older(1) by fastforce
  have nr2: "r \<notin> refs k2"
    using refs_le [OF wfk(2)] older(2) by fastforce
  have own: "s2 ! r = a\<lparr>params := mask_assign (params a) (map Not (fixed_params a)) new_params\<rparr>"
    using s2(2) s1(3) nr1 nr2 own0 by simp
  have c1: "s2 ! address k1 = a1\<lparr>params :=
         mask_assign (params a1) (map Not (fixed_params a1)) (take n1 new_params)\<rparr>"
    using s2(2) out1 s1(4) plain(1) by (simp add: written_def a1_def)
  have c2: "s2 ! address k2 = a2\<lparr>params :=
         mask_assign (params a2) (map Not (fixed_params a2)) (drop n1 new_params)\<rparr>"
    using s2(3) plain(2) by (simp add: written_def a2_def)
  have wf1a: "wf_attrs a1"
    using wfk(1) by (simp add: wf_kernel_address a1_def)
  have "mask_assign (params a1 @ params a2)
          (map Not (fixed_params a1) @ map Not (fixed_params a2))
          (take n1 new_params @ drop n1 new_params)
      = mask_assign (params a1) (map Not (fixed_params a1)) (take n1 new_params)
        @ mask_assign (params a2) (map Not (fixed_params a2)) (drop n1 new_params)"
    using wf1a len by (intro mask_assign_append) (simp_all add: wf_attrs_def comp_def n1_def)
  then have "concat_invariant (snapshot s2 (BinaryKernelRef op r k1 k2))"
    using cat fx by (simp add: own c1 c2)
  with run show ?thesis by blast
qed

subsection \<open>A sum of a clamping and a plain kernel, and a kernel added to itself\<close>

definition clamping_child :: "unit attrs" where
  "clamping_child = \<lparr>num_dim = 1, num_params = 1, params = [1], fixed_params = [False],
     param_bounds = [(Some 0, Some 10)], enforce_bounds = True, hyperpriors = [()], is_log = [True]\<rparr>"

definition plain_child :: "unit attrs" where
  "plain_child = \<lparr>num_dim = 1, num_params = 2, params = [1, 2], fixed_params = [True, False],
     param_bounds = [(Some 0, Some 10), (Some 0, None)], enforce_bounds = False, hyperpriors = [(), ()],
     is_log = [True, True]\<rparr>"

definition example_sum_attrs :: "real list \<Rightarrow> unit attrs" where
  "example_sum_attrs ps = \<lparr>num_dim = 1, num_params = 3, params = ps, fixed_params = [False, True, False],
     param_bounds = [(Some 0, Some 10), (Some 0, Some 10), (Some 0, None)], enforce_bounds = False,
     hyperpriors = [(), (), ()], is_log = [True, True, True]\<rparr>"

definition free_child :: "real list \<Rightarrow> unit attrs" where
  "free_child ps = \<lparr>num_dim = 1, num_params = 1, params = ps, fixed_params = [False],
     param_bounds = [(Some 0, None)], enforce_bounds = False, hyperpriors = [()], is_log = [True]\<rparr>"

definition doubled_attrs :: "real list \<Rightarrow> unit attrs" where
  "doubled_attrs ps = \<lparr>num_dim = 1, num_params = 2, params = ps, fixed_params = [False, False],
     param_bounds = [(Some 0, None), (Some 0, None)], enforce_bounds = False,
     hyperpriors = [(), ()], is_log = [True, True]\<rparr>"

lemma example_sum_init:
  "BinaryKernel_init U SumOp (KernelRef 0) (KernelRef 1) [clamping_child, plain_child]
     = Inr (SumKernelRef 2 (KernelRef 0) (KernelRef 1),
            [clamping_child, plain_child, example_sum_attrs [1, 1, 2]])"
  by (simp add: BinaryKernel_init_def Kernel_init_def clamping_child_def plain_child_def example_sum_attrs_def)

lemma wf_example_sum:
  "wf_kernel [clamping_child, plain_child, example_sum_attrs [1, 1, 2]]
     (SumKernelRef 2 (KernelRef 0) (KernelRef 1))"
  by (simp add: wf_attrs_def clamping_child_def plain_child_def example_sum_attrs_def)

lemma doubled_init:
  "Kernel_add U (KernelRef 0) (KernelRef 0) [free_child [1]]
     = Inr (SumKernelRef 1 (KernelRef 0) (KernelRef 0), [free_child [1], doubled_attrs [1, 1]])"
  by (simp add: Kernel_add_def BinaryKernel_init_def Kernel_init_def free_child_def doubled_attrs_def)

lemma wf_doubled:
  "wf_kernel [free_child [1], doubled_attrs [1, 1]] (SumKernelRef 1 (KernelRef 0) (KernelRef 0))"
  by (simp add: wf_attrs_def free_child_def doubled_attrs_def)

text \<open>
  Claim C4.  \<open>BinaryKernel_init\<close> establishes the concatenation invariant
  (\<open>BinaryKernel_init_wf\<close>), and \<open>set_hyperparams\<close> preserves it when the children reach no
  common object and neither enforces its bounds (\<open>set_hyperparams_keeps_concatenation\<close>), but
  not when one does: the combinator stores the incoming values as they come, the child
  stores them clamped.  A sum of a kernel with one free parameter bounded by \<open>[0, 10]\<close>,
  \<open>enforce_bounds\<close> set, and a kernel with parameters \<open>[1, 2]\<close>, the first one fixed, is given
  the values \<open>[20, 3]\<close>: afterwards the combinator holds \<open>[20, 1, 3]\<close> and its children hold
  \<open>[10]\<close> and \<open>[1, 3]\<close>.
\<close>

theorem set_hyperparams_breaks_concatenation:
  "BinaryKernel_init (\<lambda>b. ()) SumOp (KernelRef 0) (KernelRef 1) [clamping_child, plain_child]
     = Inr (SumKernelRef 2 (KernelRef 0) (KernelRef 1),
            [clamping_child, plain_child, example_sum_attrs [1, 1, 2]])
   \<and> concat_invariant (snapshot [clamping_child, plain_child, example_sum_attrs [1, 1, 2]]
        (SumKernelRef 2 (KernelRef 0) (KernelRef 1)))
   \<and> set_hyperparams (SumKernelRef 2 (KernelRef 0) (KernelRef 1)) [20, 3]
        [clamping_child, plain_child, example_sum_attrs [1, 1, 2]]
     = (None, [clamping_child\<lparr>params := [10]\<rparr>, plain_child\<lparr>params := [1, 3]\<rparr>,
               example_sum_attrs [20, 1, 3]])
   \<and> \<not> concat_invariant
        (snapshot [clamping_child\<lparr>params := [10]\<rparr>, plain_child\<lparr>params := [1, 3]\<rparr>,
                   example_sum_attrs [20, 1, 3]]
           (SumKernelRef 2 (KernelRef 0) (KernelRef 1)))"
  by (simp add: BinaryKernel_init_def Kernel_init_def clamping_child_def plain_child_def
        example_sum_attrs_def free_params_def mask_select_def Kernel_set_hyperparams_def
        free_param_bounds_def clamp_def)


text \<open>
  A kernel with one free parameter is added to itself, and the sum is given the values
  \<open>[5, 7]\<close>: the one child is called twice and ends with \<open>[7]\<close>.
\<close>

theorem BinaryKernel_set_hyperparams_splits_witness:
  "set_hyperparams (KernelRef 0) (take 1 [5, 7]) [free_child [1], doubled_attrs [5, 7]]
     = (None, [free_child [5], doubled_attrs [5, 7]])
   \<and> set_hyperparams (KernelRef 0) (drop 1 [5, 7]) [free_child [5], doubled_attrs [5, 7]]
     = (None, [free_child [7], doubled_attrs [5, 7]])
   \<and> set_hyperparams (SumKernelRef 1 (KernelRef 0) (KernelRef 0)) [5, 7]
        [free_child [1], doubled_attrs [1, 1]]
     = (None, [free_child [7], doubled_attrs [5, 7]])"
proof -
  have len: "length [5::real, 7] = length (free_params ([free_child [1], doubled_attrs [1, 1]] ! 1))"
    by (simp add: doubled_attrs_def free_params_def mask_select_def)
  have n1: "length (filter Not (fixed_params ([free_child [1], doubled_attrs [1, 1]]
        ! address (KernelRef 0 :: unit kernel_ref)))) = 1"
    by (simp add: free_child_def)
  have upd: "[free_child [1], doubled_attrs [1, 1]]
      [1 := ([free_child [1], doubled_attrs [1, 1]] ! 1)\<lparr>params :=
        mask_assign (params ([free_child [1], doubled_attrs [1, 1]] ! 1))
          (map Not (fixed_params ([free_child [1], doubled_attrs [1, 1]] ! 1))) [5, 7]\<rparr>]
      = [free_child [1], doubled_attrs [5, 7]]"
    by (simp add: doubled_attrs_def)
  have first: "set_hyperparams (KernelRef 0) (take 1 [5, 7]) [free_child [1], doubled_attrs [5, 7]]
      = (None, [free_child [5], doubled_attrs [5, 7]])"
    by (simp add: Kernel_set_hyperparams_def free_child_def free_params_def mask_select_def)
  have second: "set_hyperparams (KernelRef 0) (drop 1 [5, 7]) [free_child [5], doubled_attrs [5, 7]]
      = (None, [free_child [7], doubled_attrs [5, 7]])"
    by (simp add: Kernel_set_hyperparams_def free_child_def free_params_def mask_select_def)
  from BinaryKernel_set_hyperparams_splits [OF wf_doubled, of "[5, 7]"] len
  obtain s1 s2 where
    f1: "set_hyperparams (KernelRef 0) (take 1 [5, 7]) [free_child [1], doubled_attrs [5, 7]] = (None, s1)"
    and f2: "set_hyperparams (KernelRef 0) (drop 1 [5, 7]) s1 = (None, s2)"
    and f3: "set_hyperparams (SumKernelRef 1 (KernelRef 0) (KernelRef 0)) [5, 7]
        [free_child [1], doubled_attrs [1, 1]] = (None, s2)"
    unfolding n1 upd by blast
  from f1 have s1: "s1 = [free_child [5], doubled_attrs [5, 7]]"
    unfolding first by (simp only: prod.inject)
  from f2 have s2: "s2 = [free_child [7], doubled_attrs [5, 7]]"
    unfolding s1 second by (simp only: prod.inject)
  from first second f3 show ?thesis
    unfolding s2 by (intro conjI)
qed


section \<open>utils.generate\_set\_partition\_strings\<close>

text \<open>
  Labels and lengths are natural numbers: every entry of \<^verbatim>\<open>a\<close> and \<^verbatim>\<open>b\<close> starts at 0 or 1 and
  is only ever incremented or copied, and stays below \<open>n\<close>.

  \<^verbatim>\<open>xs[lo:hi] = v\<close> for a scalar \<open>v\<close>, and \<^verbatim>\<open>(a[:-1] != b[:-1]).nonzero()[0][-1]\<close>, the last
  index but the final one at which \<open>a\<close> and \<open>b\<close> differ; indexing the empty array of such
  indices raises \<open>IndexError\<close>.
\<close>

definition slice_fill :: "'a list \<Rightarrow> nat \<Rightarrow> nat \<Rightarrow> 'a \<Rightarrow> 'a list" where
  "slice_fill xs lo hi v = map (\<lambda>i. if lo \<le> i \<and> i < hi then v else xs ! i) [0..<length xs]"

definition last_differing :: "nat list \<Rightarrow> nat list \<Rightarrow> error + nat" where
  "last_differing a b =
     (case filter (\<lambda>i. a ! i \<noteq> b ! i) [0..<min (length a) (length b) - 1] of
        [] \<Rightarrow> Inl IndexError
      | i # js \<Rightarrow> Inr (last (i # js)))"

text \<open>
  The \<^verbatim>\<open>while True\<close> loop of Algorithm H on the state \<open>(a, b, partitions)\<close>.  Nothing in the
  loop itself bounds the number of rounds, so the result is an option: \<open>None\<close> is a loop
  that never leaves.  \<open>b ! (length b - 1)\<close> plays the part of Knuth's \<open>m\<close>.
\<close>

partial_function (option) H_loop ::
  "nat list \<Rightarrow> nat list \<Rightarrow> nat list list \<Rightarrow> (error + nat list list) option" where
  "H_loop a b partitions =
     (let partitions = partitions @ [a] in
      if a = [] \<or> b = [] then Some (Inl IndexError)
      else if last a = last b then
        (case last_differing a b of
           Inl e \<Rightarrow> Some (Inl e)
         | Inr j \<Rightarrow>
             if j = 0 then Some (Inr partitions)
             else
               let a = a[j := a ! j + 1];
                   b = b[length b - 1 := b ! j + (if a ! j = b ! j then 1 else 0)];
                   a = slice_fill a (j + 1) (length a) 0;
                   b = slice_fill b (j + 1) (length b - 1) (last b)
               in H_loop a b partitions)
      else H_loop (a[length a - 1 := last a + 1]) b partitions)"

declare H_loop.simps [code]

definition generate_set_partition_strings :: "nat \<Rightarrow> (error + nat list list) option" where
  "generate_set_partition_strings n =
     (if n = 0 then Some (Inr [])
      else if n = 1 then Some (Inr [[0]])
      else H_loop (replicate n 0) (replicate n 1) [])"


fun rgs_from :: "nat \<Rightarrow> nat \<Rightarrow> nat list list" where
  "rgs_from m 0 = [[]]"
| "rgs_from m (Suc k) = concat (map (\<lambda>x. map ((#) x) (rgs_from (max m (Suc x)) k)) [0..<Suc m])"




text \<open>
  \<^verbatim>\<open>generate_set_partitions\<close>: for every string, one block per label in increasing order
  (\<^verbatim>\<open>scipy.unique(string)\<close>), holding the members of \<^verbatim>\<open>set_\<close> (here \<open>set'\<close>) at the positions that carry
  the label.
\<close>

definition generate_set_partitions :: "'a list \<Rightarrow> (error + 'a list list list) option" where
  "generate_set_partitions set' =
     (case generate_set_partition_strings (length set') of
        None \<Rightarrow> None
      | Some (Inl e) \<Rightarrow> Some (Inl e)
      | Some (Inr strings) \<Rightarrow>
          Some (Inr (map (\<lambda>string.
                  map (\<lambda>block_num. mask_select set' (map (\<lambda>l. l = block_num) string))
                    (sorted_list_of_set (set string)))
                strings)))"

subsection \<open>Restricted growth strings, as the specification defines them\<close>

text \<open>
  A restricted growth string has \<open>a[0] = 0\<close> and \<open>a[i] \<le> 1 + max(a[0..i-1])\<close>.  \<open>rgs_from m k\<close>
  lists, in lexicographic order, the ways to continue by \<open>k\<close> labels a string whose labels
  so far are below \<open>m\<close>; \<open>rgs_from 0 n\<close> lists the restricted growth strings of length \<open>n\<close>.
  The Bell number is the sum of the Stirling numbers of the second kind.
\<close>

fun Stirling2 :: "nat \<Rightarrow> nat \<Rightarrow> nat" where
  "Stirling2 0 0 = 1"
| "Stirling2 0 (Suc k) = 0"
| "Stirling2 (Suc n) 0 = 0"
| "Stirling2 (Suc n) (Suc k) = Suc k * Stirling2 n (Suc k) + Stirling2 n k"

definition bell :: "nat \<Rightarrow> nat" where
  "bell n = (\<Sum>k\<le>n. Stirling2 n k)"

definition is_rgs :: "nat list \<Rightarrow> bool" where
  "is_rgs a \<longleftrightarrow> (\<forall>i<length a. if i = 0 then a ! i = 0 else a ! i \<le> 1 + Max (set (take i a)))"



subsection \<open>The loop visits the strings in lexicographic order\<close>

text \<open>
  \<open>nblocks m s\<close> is one more than the largest label once \<open>s\<close> has been appended to a string
  with labels below \<open>m\<close>; \<open>restricted m s\<close> says that \<open>s\<close> continues such a string; and
  \<open>label_bounds p\<close> is the array \<open>b\<close> that belongs to the array \<open>a = p\<close>.
\<close>

definition nblocks :: "nat \<Rightarrow> nat list \<Rightarrow> nat" where
  "nblocks m s = fold (\<lambda>x m. max m (Suc x)) s m"

fun restricted :: "nat \<Rightarrow> nat list \<Rightarrow> bool" where
  "restricted m [] = True"
| "restricted m (x # s) = (x \<le> m \<and> restricted (max m (Suc x)) s)"

definition label_bounds :: "nat list \<Rightarrow> nat list" where
  "label_bounds p = map (\<lambda>i. max 1 (nblocks 0 (take i p))) [0..<length p]"

lemma nblocks_simps [simp]:
  "nblocks m [] = m"
  "nblocks m (x # s) = nblocks (max m (Suc x)) s"
  "nblocks m (s @ t) = nblocks (nblocks m s) t"
  by (simp_all add: nblocks_def)

lemma nblocks_ge: "m \<le> nblocks m s"
proof (induction s arbitrary: m)
  case (Cons x s)
  have "m \<le> max m (Suc x)" by simp
  also have "\<dots> \<le> nblocks (max m (Suc x)) s" by (rule Cons.IH)
  finally show ?case by simp
qed simp

lemma nblocks_replicate_0 [simp]: "nblocks m (replicate k 0) = (if k = 0 then m else max m 1)"
  by (induction k arbitrary: m) auto

lemma length_label_bounds [simp]: "length (label_bounds p) = length p"
  by (simp add: label_bounds_def)

lemma label_bounds_nth: "i < length p \<Longrightarrow> label_bounds p ! i = max 1 (nblocks 0 (take i p))"
  by (simp add: label_bounds_def)

lemma label_bounds_snoc: "label_bounds (p @ [x]) = label_bounds p @ [max 1 (nblocks 0 p)]"
  by (rule nth_equalityI) (auto simp: label_bounds_nth nth_append less_Suc_eq)

lemma label_bounds_append_take: "label_bounds (p @ s) = label_bounds p @ drop (length p) (label_bounds (p @ s))"
  by (rule nth_equalityI) (auto simp: label_bounds_nth nth_append)

lemma label_bounds_zeros:
  "label_bounds (p @ x # replicate k 0)
     = label_bounds p @ max 1 (nblocks 0 p) # replicate k (max (nblocks 0 p) (Suc x))"
proof (rule nth_equalityI)
  show "length (label_bounds (p @ x # replicate k 0))
      = length (label_bounds p @ max 1 (nblocks 0 p) # replicate k (max (nblocks 0 p) (Suc x)))"
    by simp
next
  fix i assume "i < length (label_bounds (p @ x # replicate k 0))"
  then have i: "i < length p + Suc k" by simp
  consider "i < length p" | "i = length p" | "length p < i" by linarith
  then show "label_bounds (p @ x # replicate k 0) ! i
      = (label_bounds p @ max 1 (nblocks 0 p) # replicate k (max (nblocks 0 p) (Suc x))) ! i"
  proof cases
    case 1
    then show ?thesis using i by (simp add: label_bounds_nth nth_append)
  next
    case 2
    then show ?thesis by (simp add: label_bounds_nth nth_append)
  next
    case 3
    then obtain d where d: "i = length p + Suc d" "d < k"
      using i by (metis add_Suc_right less_iff_Suc_add add_less_cancel_left Suc_less_eq)
    have "take i (p @ x # replicate k 0) = p @ x # replicate d 0"
      using d by simp
    then show ?thesis
      using d i by (simp add: label_bounds_nth nth_append max.assoc)
  qed
qed

lemma restricted_nth_le:
  "restricted m p \<Longrightarrow> i < length p \<Longrightarrow> p ! i \<le> nblocks m (take i p)"
proof (induction p arbitrary: m i)
  case (Cons x p)
  then show ?case by (cases i) auto
qed simp

lemma restricted_snoc: "restricted m (p @ [x]) \<longleftrightarrow> restricted m p \<and> x \<le> nblocks m p"
  by (induction p arbitrary: m) auto

lemma restricted_take: "restricted m p \<Longrightarrow> restricted m (take i p)"
proof (induction p arbitrary: m i)
  case (Cons x p)
  then show ?case by (cases i) auto
qed simp


lemma label_bounds_take: "label_bounds (take i p) = take i (label_bounds p)"
proof (rule nth_equalityI)
  show "length (label_bounds (take i p)) = length (take i (label_bounds p))" by simp
next
  fix k assume "k < length (label_bounds (take i p))"
  then have k: "k < i" "k < length p" by simp_all
  then have "take k (take i p) = take k p" by (simp add: min_def)
  then show "label_bounds (take i p) ! k = take i (label_bounds p) ! k"
    using k by (simp add: label_bounds_nth)
qed

text \<open>
  A non-empty prefix of a restricted growth string; the last index at which such a prefix
  is below its bound; and the state in which the loop goes on once every string that
  starts with the prefix \<open>p\<close> has been visited (steps H4 to H6).
\<close>

definition rgs_prefix :: "nat list \<Rightarrow> bool" where
  "rgs_prefix p \<longleftrightarrow> p \<noteq> [] \<and> hd p = 0 \<and> restricted 0 p"

definition last_free :: "nat list \<Rightarrow> nat" where
  "last_free p = last (filter (\<lambda>i. p ! i \<noteq> label_bounds p ! i) [0..<length p])"

definition H_backtrack :: "nat \<Rightarrow> nat list \<Rightarrow> nat list list \<Rightarrow> (error + nat list list) option" where
  "H_backtrack n p acc =
     (if last_free p = 0 then Some (Inr acc)
      else H_loop (take (last_free p) p @ Suc (p ! last_free p) # replicate (n - Suc (last_free p)) 0)
             (label_bounds (take (last_free p) p @ Suc (p ! last_free p) # replicate (n - Suc (last_free p)) 0))
             acc)"

lemma rgs_prefix_nblocks: "rgs_prefix p \<Longrightarrow> 1 \<le> nblocks 0 p"
proof -
  assume "rgs_prefix p"
  then obtain t where "p = 0 # t" by (cases p) (auto simp: rgs_prefix_def)
  then show ?thesis using nblocks_ge [of 1 t] by simp
qed

lemma rgs_prefix_take: "rgs_prefix p \<Longrightarrow> 0 < i \<Longrightarrow> rgs_prefix (take i p)"
  by (cases p; cases i) (auto simp: rgs_prefix_def restricted_take)

lemma rgs_prefix_snoc: "rgs_prefix p \<Longrightarrow> x \<le> nblocks 0 p \<Longrightarrow> rgs_prefix (p @ [x])"
  by (auto simp: rgs_prefix_def restricted_snoc)

lemma free_indices_nonempty:
  assumes "rgs_prefix p"
  shows "filter (\<lambda>i. p ! i \<noteq> label_bounds p ! i) [0..<length p] \<noteq> []"
proof -
  from assms obtain t where p: "p = 0 # t" by (cases p) (auto simp: rgs_prefix_def)
  have "p ! 0 \<noteq> label_bounds p ! 0" by (simp add: p label_bounds_nth)
  moreover have "0 \<in> set [0..<length p]" by (simp add: p)
  ultimately have "0 \<in> set (filter (\<lambda>i. p ! i \<noteq> label_bounds p ! i) [0..<length p])" by simp
  then show ?thesis by (metis empty_iff empty_set)
qed

lemma last_free_props:
  assumes "rgs_prefix p"
  shows "last_free p < length p" and "p ! last_free p \<noteq> label_bounds p ! last_free p"
proof -
  have "last_free p \<in> set (filter (\<lambda>i. p ! i \<noteq> label_bounds p ! i) [0..<length p])"
    unfolding last_free_def using free_indices_nonempty [OF assms] by (rule last_in_set)
  then show "last_free p < length p" and "p ! last_free p \<noteq> label_bounds p ! last_free p"
    by simp_all
qed

lemma H_loop_increase:
  assumes "x \<noteq> m"
  shows "H_loop (p @ [x]) (q @ [m]) acc = H_loop (p @ [Suc x]) (q @ [m]) (acc @ [p @ [x]])"
  by (subst H_loop.simps) (simp add: assms)

lemma last_differing_snoc:
  assumes "rgs_prefix p"
  shows "last_differing (p @ [m]) (label_bounds p @ [m]) = Inr (last_free p)"
proof -
  have "filter (\<lambda>i. (p @ [m]) ! i \<noteq> (label_bounds p @ [m]) ! i) [0..<length p]
      = filter (\<lambda>i. p ! i \<noteq> label_bounds p ! i) [0..<length p]"
    by (rule filter_cong) (simp_all add: nth_append)
  moreover obtain i js where "filter (\<lambda>i. p ! i \<noteq> label_bounds p ! i) [0..<length p] = i # js"
    using free_indices_nonempty [OF assms] by (cases "filter (\<lambda>i. p ! i \<noteq> label_bounds p ! i) [0..<length p]") auto
  ultimately show ?thesis
    by (simp add: last_differing_def last_free_def)
qed

lemma fill_a:
  assumes "j < length p"
  shows "slice_fill ((p @ [m])[j := Suc (p ! j)]) (Suc j) (Suc (length p)) 0
       = take j p @ Suc (p ! j) # replicate (length p - j) 0"
proof (rule nth_equalityI)
  show "length (slice_fill ((p @ [m])[j := Suc (p ! j)]) (Suc j) (Suc (length p)) 0)
      = length (take j p @ Suc (p ! j) # replicate (length p - j) 0)"
    using assms by (simp add: slice_fill_def)
next
  fix i assume "i < length (slice_fill ((p @ [m])[j := Suc (p ! j)]) (Suc j) (Suc (length p)) 0)"
  then have i: "i < Suc (length p)" by (simp add: slice_fill_def)
  consider "i < j" | "i = j" | "j < i" by linarith
  then show "slice_fill ((p @ [m])[j := Suc (p ! j)]) (Suc j) (Suc (length p)) 0 ! i
      = (take j p @ Suc (p ! j) # replicate (length p - j) 0) ! i"
  proof cases
    case 1
    then show ?thesis using i assms by (simp add: slice_fill_def nth_append)
  next
    case 2
    then show ?thesis using i assms by (simp add: slice_fill_def nth_append)
  next
    case 3
    then show ?thesis using i assms by (simp add: slice_fill_def nth_append nth_Cons')
  qed
qed

lemma fill_b:
  assumes "j < length q"
  shows "slice_fill ((q @ [m])[length q := bl]) (Suc j) (length q) bl
       = take (Suc j) q @ replicate (length q - j) bl"
proof (rule nth_equalityI)
  show "length (slice_fill ((q @ [m])[length q := bl]) (Suc j) (length q) bl)
      = length (take (Suc j) q @ replicate (length q - j) bl)"
    using assms by (simp add: slice_fill_def)
next
  fix i assume "i < length (slice_fill ((q @ [m])[length q := bl]) (Suc j) (length q) bl)"
  then have i: "i < Suc (length q)" by (simp add: slice_fill_def)
  consider "i \<le> j" | "j < i" "i < length q" | "i = length q" using i by linarith
  then show "slice_fill ((q @ [m])[length q := bl]) (Suc j) (length q) bl ! i
      = (take (Suc j) q @ replicate (length q - j) bl) ! i"
  proof cases
    case 1
    then show ?thesis using i assms by (simp add: slice_fill_def nth_append)
  next
    case 2
    then show ?thesis using i assms by (simp add: slice_fill_def nth_append)
  next
    case 3
    then show ?thesis using i assms by (simp add: slice_fill_def nth_append)
  qed
qed

lemma label_bounds_successor:
  assumes "rgs_prefix p" and "last_free p \<noteq> 0"
  shows "label_bounds (take (last_free p) p @ Suc (p ! last_free p) # replicate (length p - last_free p) 0)
       = take (Suc (last_free p)) (label_bounds p)
         @ replicate (length p - last_free p)
             (label_bounds p ! last_free p + (if Suc (p ! last_free p) = label_bounds p ! last_free p then 1 else 0))"
proof -
  define j where "j = last_free p"
  define N where "N = nblocks 0 (take j p)"
  have j: "j < length p" "p ! j \<noteq> label_bounds p ! j" "0 < j"
    using last_free_props [OF assms(1)] assms(2) by (simp_all add: j_def)
  have "rgs_prefix (take j p)" using assms(1) j(3) by (rule rgs_prefix_take)
  then have N1: "1 \<le> N" unfolding N_def by (rule rgs_prefix_nblocks)
  have bj: "label_bounds p ! j = N" using j(1) N1 by (simp add: label_bounds_nth N_def)
  have "restricted 0 p" using assms(1) by (simp add: rgs_prefix_def)
  then have "p ! j \<le> N" unfolding N_def using j(1) by (rule restricted_nth_le)
  with j(2) bj have lt: "Suc (p ! j) \<le> N" by simp
  have "label_bounds (take j p @ Suc (p ! j) # replicate (length p - j) 0)
      = label_bounds (take j p) @ max 1 N # replicate (length p - j) (max N (Suc (Suc (p ! j))))"
    unfolding N_def by (rule label_bounds_zeros)
  also have "label_bounds (take j p) @ [max 1 N] = take (Suc j) (label_bounds p)"
    using j(1) N1 bj by (simp add: take_Suc_conv_app_nth label_bounds_take)
  then have "label_bounds (take j p) @ max 1 N # replicate (length p - j) (max N (Suc (Suc (p ! j))))
      = take (Suc j) (label_bounds p) @ replicate (length p - j) (max N (Suc (Suc (p ! j))))"
    by (metis append.assoc append_Cons append_Nil)
  also have "max N (Suc (Suc (p ! j))) = label_bounds p ! j + (if Suc (p ! j) = label_bounds p ! j then 1 else 0)"
    using lt bj by auto
  finally show ?thesis unfolding j_def .
qed

lemma H_loop_find:
  assumes "rgs_prefix p" and "m = nblocks 0 p"
  shows "H_loop (p @ [m]) (label_bounds (p @ [m])) acc = H_backtrack (Suc (length p)) p (acc @ [p @ [m]])"
proof -
  have m1: "1 \<le> m" using assms rgs_prefix_nblocks [of p] by simp
  then have b: "label_bounds (p @ [m]) = label_bounds p @ [m]" using assms(2) by (simp add: label_bounds_snoc)
  note ld = last_differing_snoc [OF assms(1), of m]
  have j: "last_free p < length p" by (rule last_free_props [OF assms(1)])
  show ?thesis
  proof (cases "last_free p = 0")
    case True
    then show ?thesis
      unfolding b by (subst H_loop.simps) (simp add: ld H_backtrack_def)
  next
    case False
    have upd: "(label_bounds p @ [m])[length p := bl] = label_bounds p @ [bl]" for bl
      by (metis length_label_bounds list_update_length)
    have "H_loop (p @ [m]) (label_bounds p @ [m]) acc
        = H_loop (slice_fill ((p @ [m])[last_free p := Suc (p ! last_free p)]) (Suc (last_free p)) (Suc (length p)) 0)
            (slice_fill ((label_bounds p @ [m])[length (label_bounds p) :=
                 label_bounds p ! last_free p + (if Suc (p ! last_free p) = label_bounds p ! last_free p then 1 else 0)])
               (Suc (last_free p)) (length (label_bounds p))
               (label_bounds p ! last_free p + (if Suc (p ! last_free p) = label_bounds p ! last_free p then 1 else 0)))
            (acc @ [p @ [m]])"
      using False j by (subst H_loop.simps) (simp add: ld Let_def nth_append upd)
    also have "\<dots> = H_loop (take (last_free p) p @ Suc (p ! last_free p) # replicate (length p - last_free p) 0)
        (label_bounds (take (last_free p) p @ Suc (p ! last_free p) # replicate (length p - last_free p) 0))
        (acc @ [p @ [m]])"
    proof -
      have fb: "slice_fill ((label_bounds p @ [m])[length (label_bounds p) := bl]) (Suc (last_free p)) (length (label_bounds p)) bl
          = take (Suc (last_free p)) (label_bounds p) @ replicate (length p - last_free p) bl" for bl
        using fill_b [of "last_free p" "label_bounds p" m bl] j by simp
      show ?thesis
        by (simp only: fill_a [OF j] fb label_bounds_successor [OF assms(1) False])
    qed
    finally show ?thesis
      using False unfolding b by (simp add: H_backtrack_def)
  qed
qed


lemma free_indices_snoc:
  assumes "rgs_prefix p"
  shows "filter (\<lambda>i. (p @ [x]) ! i \<noteq> label_bounds (p @ [x]) ! i) [0..<length (p @ [x])]
       = filter (\<lambda>i. p ! i \<noteq> label_bounds p ! i) [0..<length p]
         @ (if x \<noteq> nblocks 0 p then [length p] else [])"
proof -
  have b: "label_bounds (p @ [x]) = label_bounds p @ [nblocks 0 p]"
    using rgs_prefix_nblocks [OF assms] by (simp add: label_bounds_snoc)
  have "filter (\<lambda>i. (p @ [x]) ! i \<noteq> (label_bounds p @ [nblocks 0 p]) ! i) [0..<length p]
      = filter (\<lambda>i. p ! i \<noteq> label_bounds p ! i) [0..<length p]"
    by (rule filter_cong) (simp_all add: nth_append)
  moreover have "(label_bounds p @ [nblocks 0 p]) ! length p = nblocks 0 p"
    by (metis length_label_bounds nth_append_length)
  ultimately show ?thesis
    unfolding b by simp
qed

lemma H_backtrack_sibling:
  assumes "rgs_prefix p" and "x < nblocks 0 p"
  shows "H_backtrack n (p @ [x]) acc
       = H_loop (p @ Suc x # replicate (n - Suc (length p)) 0)
           (label_bounds (p @ Suc x # replicate (n - Suc (length p)) 0)) acc"
proof -
  have "last_free (p @ [x]) = length p"
    unfolding last_free_def free_indices_snoc [OF assms(1)] using assms(2) by simp
  moreover have "length p \<noteq> 0" using assms(1) by (simp add: rgs_prefix_def)
  ultimately show ?thesis
    by (simp add: H_backtrack_def)
qed

lemma H_backtrack_parent:
  assumes "rgs_prefix p"
  shows "H_backtrack n (p @ [nblocks 0 p]) acc = H_backtrack n p acc"
proof -
  have lf: "last_free (p @ [nblocks 0 p]) = last_free p"
    unfolding last_free_def free_indices_snoc [OF assms(1)] by simp
  have j: "last_free p < length p" by (rule last_free_props [OF assms])
  show ?thesis
    unfolding H_backtrack_def lf using j by (simp add: nth_append)
qed

lemma rgs_from_children:
  "concat (map (\<lambda>y. map (\<lambda>s. (p @ [x]) @ y # s) (rgs_from (max m (Suc y)) k)) [0..<Suc m])
     = map (\<lambda>s. p @ x # s) (rgs_from m (Suc k))"
  by (simp only: rgs_from.simps map_concat map_map comp_def append_assoc append_Cons append_Nil)

lemma H_subtree:
  assumes "rgs_prefix p" and "x \<le> nblocks 0 p"
  shows "H_loop (p @ x # replicate k 0) (label_bounds (p @ x # replicate k 0)) acc
       = H_backtrack (Suc (length p + k)) p
           (acc @ concat (map (\<lambda>y. map (\<lambda>s. p @ y # s) (rgs_from (max (nblocks 0 p) (Suc y)) k))
                           [x..<Suc (nblocks 0 p)]))"
  using assms
proof (induction k arbitrary: p x acc)
  case 0
  note gp = "0.prems"(1) and xm = "0.prems"(2)
  define m where "m = nblocks 0 p"
  have m1: "1 \<le> m" unfolding m_def using gp by (rule rgs_prefix_nblocks)
  have b: "label_bounds (p @ [y]) = label_bounds p @ [m]" for y
    using m1 by (simp add: label_bounds_snoc m_def)
  have "H_loop (p @ [x]) (label_bounds p @ [m]) acc
      = H_backtrack (Suc (length p)) p (acc @ map (\<lambda>y. p @ [y]) [x..<Suc m])"
    if "x \<le> m" for x acc
    using that
  proof (induction "m - x" arbitrary: x acc)
    case 0
    then have x: "x = m" by simp
    show ?case
      using H_loop_find [OF gp m_def, of acc] unfolding x b by simp
  next
    case (Suc d)
    then have x: "x < m" "d = m - Suc x" "Suc x \<le> m" by simp_all
    have "H_loop (p @ [x]) (label_bounds p @ [m]) acc = H_loop (p @ [Suc x]) (label_bounds p @ [m]) (acc @ [p @ [x]])"
      using x(1) by (intro H_loop_increase) simp
    also have "\<dots> = H_backtrack (Suc (length p)) p ((acc @ [p @ [x]]) @ map (\<lambda>y. p @ [y]) [Suc x..<Suc m])"
      using x by (intro Suc.hyps(1)) simp_all
    also have "(acc @ [p @ [x]]) @ map (\<lambda>y. p @ [y]) [Suc x..<Suc m] = acc @ map (\<lambda>y. p @ [y]) [x..<Suc m]"
      using x(1) by (simp add: upt_conv_Cons)
    finally show ?case .
  qed
  from this [of x acc] xm show ?case
    by (simp add: b m_def [symmetric] comp_def)
next
  case (Suc k)
  note gp = Suc.prems(1) and xm = Suc.prems(2) and outer = Suc.IH
  define m where "m = nblocks 0 p"
  define n where "n = Suc (length p + Suc k)"
  have "H_loop (p @ x # replicate (Suc k) 0) (label_bounds (p @ x # replicate (Suc k) 0)) acc
      = H_backtrack n p (acc @ concat (map (\<lambda>y. map (\<lambda>s. p @ y # s) (rgs_from (max m (Suc y)) (Suc k)))
                                   [x..<Suc m]))"
    if "x \<le> m" for x acc
    using that
  proof (induction "m - x" arbitrary: x acc)
    case 0
    then have x: "x = m" by simp
    have gq: "rgs_prefix (p @ [m])"
      using gp by (rule rgs_prefix_snoc) (simp add: m_def)
    have mq: "nblocks 0 (p @ [m]) = Suc m" by (simp add: m_def)
    have "H_loop (p @ m # replicate (Suc k) 0) (label_bounds (p @ m # replicate (Suc k) 0)) acc
        = H_loop ((p @ [m]) @ 0 # replicate k 0) (label_bounds ((p @ [m]) @ 0 # replicate k 0)) acc"
      by simp
    also have "\<dots> = H_backtrack (Suc (length (p @ [m]) + k)) (p @ [m])
          (acc @ concat (map (\<lambda>y. map (\<lambda>s. (p @ [m]) @ y # s) (rgs_from (max (nblocks 0 (p @ [m])) (Suc y)) k))
                           [0..<Suc (nblocks 0 (p @ [m]))]))"
      using gq by (rule outer) simp
    also have "\<dots> = H_backtrack n (p @ [m]) (acc @ map (\<lambda>s. p @ m # s) (rgs_from (Suc m) (Suc k)))"
      unfolding mq rgs_from_children by (simp add: n_def)
    also have "\<dots> = H_backtrack n p (acc @ map (\<lambda>s. p @ m # s) (rgs_from (Suc m) (Suc k)))"
      unfolding m_def by (rule H_backtrack_parent [OF gp])
    finally show ?case
      unfolding x by simp
  next
    case (Suc d)
    then have x: "x < m" "d = m - Suc x" "Suc x \<le> m" by simp_all
    have gq: "rgs_prefix (p @ [x])"
      using gp by (rule rgs_prefix_snoc) (use x in \<open>simp add: m_def\<close>)
    have mq: "nblocks 0 (p @ [x]) = m" using x(1) by (simp add: m_def)
    define acc1 where "acc1 = acc @ map (\<lambda>s. p @ x # s) (rgs_from m (Suc k))"
    have "H_loop (p @ x # replicate (Suc k) 0) (label_bounds (p @ x # replicate (Suc k) 0)) acc
        = H_loop ((p @ [x]) @ 0 # replicate k 0) (label_bounds ((p @ [x]) @ 0 # replicate k 0)) acc"
      by simp
    also have "\<dots> = H_backtrack (Suc (length (p @ [x]) + k)) (p @ [x])
          (acc @ concat (map (\<lambda>y. map (\<lambda>s. (p @ [x]) @ y # s) (rgs_from (max (nblocks 0 (p @ [x])) (Suc y)) k))
                           [0..<Suc (nblocks 0 (p @ [x]))]))"
      using gq by (rule outer) simp
    also have "\<dots> = H_backtrack n (p @ [x]) acc1"
      unfolding mq rgs_from_children by (simp add: n_def acc1_def)
    also have "\<dots> = H_loop (p @ Suc x # replicate (n - Suc (length p)) 0)
           (label_bounds (p @ Suc x # replicate (n - Suc (length p)) 0)) acc1"
      using gp x(1) unfolding m_def by (rule H_backtrack_sibling)
    also have "n - Suc (length p) = Suc k" by (simp add: n_def)
    also have "H_loop (p @ Suc x # replicate (Suc k) 0) (label_bounds (p @ Suc x # replicate (Suc k) 0)) acc1
        = H_backtrack n p (acc1 @ concat (map (\<lambda>y. map (\<lambda>s. p @ y # s) (rgs_from (max m (Suc y)) (Suc k)))
                                   [Suc x..<Suc m]))"
      using x by (intro Suc.hyps(1)) simp_all
    also have "acc1 @ concat (map (\<lambda>y. map (\<lambda>s. p @ y # s) (rgs_from (max m (Suc y)) (Suc k))) [Suc x..<Suc m])
        = acc @ concat (map (\<lambda>y. map (\<lambda>s. p @ y # s) (rgs_from (max m (Suc y)) (Suc k))) [x..<Suc m])"
    proof -
      have "max m (Suc x) = m" using x(1) by simp
      then show ?thesis
        using x(1) by (simp add: upt_conv_Cons acc1_def)
    qed
    finally show ?case .
  qed
  from this [of x acc] xm show ?case
    by (simp add: m_def n_def)
qed

lemma generate_set_partition_strings_all:
  assumes "2 \<le> n"
  shows "generate_set_partition_strings n = Some (Inr (rgs_from 0 n))"
proof -
  from assms obtain k where n: "n = Suc (Suc k)"
    by (metis Suc_le_D numeral_2_eq_2 Suc_le_mono)
  have g: "rgs_prefix [0]" by (simp add: rgs_prefix_def)
  have lf: "last_free [0] = 0" by (simp add: last_free_def label_bounds_def)
  have "label_bounds ([0] @ 0 # replicate k 0)
      = label_bounds [0] @ max 1 (nblocks 0 [0]) # replicate k (max (nblocks 0 [0]) (Suc 0))"
    by (rule label_bounds_zeros)
  also have "label_bounds [0] = [1]" by (simp add: label_bounds_def)
  finally have b: "label_bounds ([0] @ 0 # replicate k 0) = replicate n 1"
    by (simp add: n)
  have "generate_set_partition_strings n = H_loop ([0] @ 0 # replicate k 0) (label_bounds ([0] @ 0 # replicate k 0)) []"
    unfolding b by (simp add: generate_set_partition_strings_def n)
  also have "\<dots> = H_backtrack (Suc (length [0::nat] + k)) [0]
        ([] @ concat (map (\<lambda>y. map (\<lambda>s. [0] @ y # s) (rgs_from (max (nblocks 0 [0]) (Suc y)) k))
                        [0..<Suc (nblocks 0 [0])]))"
    using g by (rule H_subtree) simp
  also have "\<dots> = Some (Inr (concat (map (\<lambda>y. map (\<lambda>s. [0] @ y # s) (rgs_from (max (nblocks 0 [0]) (Suc y)) k))
                        [0..<Suc (nblocks 0 [0])])))"
    by (simp add: H_backtrack_def lf)
  also have "concat (map (\<lambda>y. map (\<lambda>s. [0] @ y # s) (rgs_from (max (nblocks 0 [0]) (Suc y)) k))
                        [0..<Suc (nblocks 0 [0])]) = rgs_from 0 n"
    using rgs_from_children [of "[]" 0 1 k] by (simp add: n)
  finally show ?thesis .
qed

subsection \<open>Counting the strings\<close>

text \<open>
  The same strings listed by their last label instead of their first, which is the order
  in which the recurrence of the Stirling numbers counts them.
\<close>

fun rgs_snoc :: "nat \<Rightarrow> nat list list" where
  "rgs_snoc 0 = [[]]"
| "rgs_snoc (Suc n) = concat (map (\<lambda>s. map (\<lambda>x. s @ [x]) [0..<Suc (nblocks 0 s)]) (rgs_snoc n))"

lemma nblocks_Max: "nblocks 0 t = (if t = [] then 0 else Suc (Max (set t)))"
proof (induction t rule: rev_induct)
  case (snoc x t)
  show ?case
  proof (cases "t = []")
    case True
    then show ?thesis by simp
  next
    case False
    then have "Max (set (t @ [x])) = max x (Max (set t))"
      by (simp add: Max_insert)
    with snoc False show ?thesis by (simp add: max.commute)
  qed
qed simp

lemma is_rgs_snoc:
  "is_rgs (a @ [x]) \<longleftrightarrow> is_rgs a \<and> x \<le> nblocks 0 a"
proof -
  have "is_rgs (a @ [x]) \<longleftrightarrow>
      (\<forall>i<length a. if i = 0 then (a @ [x]) ! i = 0 else (a @ [x]) ! i \<le> 1 + Max (set (take i (a @ [x]))))
      \<and> (if length a = 0 then (a @ [x]) ! length a = 0
         else (a @ [x]) ! length a \<le> 1 + Max (set (take (length a) (a @ [x]))))"
    by (simp add: is_rgs_def less_Suc_eq all_conj_distrib)
  also have "(\<forall>i<length a. if i = 0 then (a @ [x]) ! i = 0 else (a @ [x]) ! i \<le> 1 + Max (set (take i (a @ [x]))))
      \<longleftrightarrow> is_rgs a"
    unfolding is_rgs_def by (intro all_cong) (auto simp: nth_append)
  also have "(if length a = 0 then (a @ [x]) ! length a = 0
         else (a @ [x]) ! length a \<le> 1 + Max (set (take (length a) (a @ [x]))))
      \<longleftrightarrow> x \<le> nblocks 0 a"
    by (simp add: nblocks_Max)
  finally show ?thesis .
qed

lemma is_rgs_restricted: "is_rgs a \<longleftrightarrow> restricted 0 a"
proof (induction a rule: rev_induct)
  case Nil
  show ?case by (simp add: is_rgs_def)
next
  case (snoc x a)
  then show ?case by (simp add: is_rgs_snoc restricted_snoc)
qed

lemma set_rgs_from: "set (rgs_from m k) = {s. length s = k \<and> restricted m s}"
proof (induction k arbitrary: m)
  case 0
  show ?case by auto
next
  case (Suc k)
  show ?case
  proof (intro set_eqI iffI)
    fix s assume "s \<in> set (rgs_from m (Suc k))"
    then obtain x t where "x \<le> m" "t \<in> set (rgs_from (max m (Suc x)) k)" "s = x # t"
      by (auto simp: less_Suc_eq_le)
    then show "s \<in> {s. length s = Suc k \<and> restricted m s}"
      by (simp add: Suc.IH)
  next
    fix s assume "s \<in> {s. length s = Suc k \<and> restricted m s}"
    then obtain x t where s: "s = x # t" "length t = k" "x \<le> m" "restricted (max m (Suc x)) t"
      by (cases s) auto
    then have tin: "t \<in> set (rgs_from (max m (Suc x)) k)"
      by (simp add: Suc.IH)
    have xin: "x \<in> set [0..<Suc m]" using s(3) by (simp del: upt_Suc)
    have "s \<in> (\<Union>x\<in>set [0..<Suc m]. set (map ((#) x) (rgs_from (max m (Suc x)) k)))"
      using xin by (rule UN_I) (simp add: s(1) tin)
    then show "s \<in> set (rgs_from m (Suc k))"
      by (simp only: rgs_from.simps set_concat set_map image_image)
  qed
qed

lemma distinct_rgs_from: "distinct (rgs_from m k)"
proof (induction k arbitrary: m)
  case 0
  show ?case by simp
next
  case (Suc k)
  have inj: "inj ((#) x)" for x :: nat by (simp add: inj_on_def)
  show ?case
    unfolding rgs_from.simps
  proof (rule distinct_concat)
    show "distinct (map (\<lambda>x. map ((#) x) (rgs_from (max m (Suc x)) k)) [0..<Suc m])"
    proof (subst distinct_map, intro conjI inj_onI)
      show "distinct [0..<Suc m]" by simp
    next
      fix x y
      assume "map ((#) x) (rgs_from (max m (Suc x)) k) = map ((#) y) (rgs_from (max m (Suc y)) k)"
      moreover have "replicate k 0 \<in> set (rgs_from (max m (Suc x)) k)"
      proof -
        have "restricted m' (replicate k 0)" for m'
          by (induction k arbitrary: m') (auto simp: max_def)
        then show ?thesis by (simp add: set_rgs_from)
      qed
      ultimately have "x # replicate k 0 \<in> set (map ((#) y) (rgs_from (max m (Suc y)) k))"
        by (metis image_eqI list.set_map)
      then show "x = y" by auto
    qed
  next
    fix ys assume "ys \<in> set (map (\<lambda>x. map ((#) x) (rgs_from (max m (Suc x)) k)) [0..<Suc m])"
    then show "distinct ys"
      by (auto simp: distinct_map Suc.IH)
  next
    fix ys zs
    assume "ys \<in> set (map (\<lambda>x. map ((#) x) (rgs_from (max m (Suc x)) k)) [0..<Suc m])"
      and "zs \<in> set (map (\<lambda>x. map ((#) x) (rgs_from (max m (Suc x)) k)) [0..<Suc m])"
      and "ys \<noteq> zs"
    then show "set ys \<inter> set zs = {}"
      by auto
  qed
qed


lemma set_rgs_snoc: "set (rgs_snoc n) = {s. length s = n \<and> restricted 0 s}"
proof (induction n)
  case 0
  show ?case by auto
next
  case (Suc n)
  show ?case
  proof (intro set_eqI iffI)
    fix s assume "s \<in> set (rgs_snoc (Suc n))"
    then obtain t x where "t \<in> set (rgs_snoc n)" "x \<le> nblocks 0 t" "s = t @ [x]"
      by (auto simp: less_Suc_eq_le simp del: upt_Suc)
    then show "s \<in> {s. length s = Suc n \<and> restricted 0 s}"
      by (simp add: Suc.IH restricted_snoc)
  next
    fix s assume "s \<in> {s. length s = Suc n \<and> restricted 0 s}"
    then have s: "length s = Suc n" "restricted 0 s" by simp_all
    then obtain t x where tx: "s = t @ [x]"
      by (cases s rule: rev_cases) auto
    with s have t: "t \<in> set (rgs_snoc n)" and x: "x \<in> set [0..<Suc (nblocks 0 t)]"
      by (simp_all add: Suc.IH restricted_snoc less_Suc_eq_le del: upt_Suc)
    have "s \<in> (\<Union>t\<in>set (rgs_snoc n). set (map (\<lambda>x. t @ [x]) [0..<Suc (nblocks 0 t)]))"
      using t by (rule UN_I) (use x in \<open>simp add: tx del: upt_Suc\<close>)
    then show "s \<in> set (rgs_snoc (Suc n))"
      by (simp only: rgs_snoc.simps set_concat set_map image_image)
  qed
qed

lemma distinct_rgs_snoc: "distinct (rgs_snoc n)"
proof (induction n)
  case 0
  show ?case by simp
next
  case (Suc n)
  show ?case
    unfolding rgs_snoc.simps
  proof (rule distinct_concat)
    show "distinct (map (\<lambda>s. map (\<lambda>x. s @ [x]) [0..<Suc (nblocks 0 s)]) (rgs_snoc n))"
    proof (subst distinct_map, intro conjI inj_onI)
      show "distinct (rgs_snoc n)" by (rule Suc.IH)
    next
      fix s t
      assume "map (\<lambda>x. s @ [x]) [0..<Suc (nblocks 0 s)] = map (\<lambda>x. t @ [x]) [0..<Suc (nblocks 0 t)]"
      then have "hd (map (\<lambda>x. s @ [x]) [0..<Suc (nblocks 0 s)]) = hd (map (\<lambda>x. t @ [x]) [0..<Suc (nblocks 0 t)])"
        by simp
      then show "s = t"
        by (simp add: upt_conv_Cons del: upt_Suc)
    qed
  next
    fix ys assume "ys \<in> set (map (\<lambda>s. map (\<lambda>x. s @ [x]) [0..<Suc (nblocks 0 s)]) (rgs_snoc n))"
    then show "distinct ys"
      by (auto simp: distinct_map inj_on_def simp del: upt_Suc)
  next
    fix ys zs
    assume "ys \<in> set (map (\<lambda>s. map (\<lambda>x. s @ [x]) [0..<Suc (nblocks 0 s)]) (rgs_snoc n))"
      and "zs \<in> set (map (\<lambda>s. map (\<lambda>x. s @ [x]) [0..<Suc (nblocks 0 s)]) (rgs_snoc n))"
      and "ys \<noteq> zs"
    then show "set ys \<inter> set zs = {}"
      by (auto simp del: upt_Suc)
  qed
qed

lemma count_extensions:
  "length (filter (\<lambda>x. max b (Suc x) = j) [0..<Suc b])
     = (if j = b then b else 0) + (if j = Suc b then 1 else 0)"
proof -
  have "filter (\<lambda>x. max b (Suc x) = j) [0..<b] = filter (\<lambda>x. b = j) [0..<b]"
    by (rule filter_cong) (auto simp: max_def)
  then show ?thesis by auto
qed

lemma length_filter_concat:
  "length (filter P (concat xss)) = (\<Sum>xs\<leftarrow>xss. length (filter P xs))"
  by (induction xss) auto

lemma sum_list_indicator:
  "(\<Sum>x\<leftarrow>xs. (if f x = j then c else 0) + (if Suc (f x) = j' then 1 else (0::nat)))
     = c * length (filter (\<lambda>x. f x = j) xs) + length (filter (\<lambda>x. Suc (f x) = j') xs)"
  by (induction xs) (auto simp: algebra_simps)

lemma count_rgs_snoc:
  "length (filter (\<lambda>s. nblocks 0 s = j) (rgs_snoc n)) = Stirling2 n j"
proof (induction n arbitrary: j)
  case 0
  show ?case by (cases j) auto
next
  case (Suc n)
  have "length (filter (\<lambda>s. nblocks 0 s = j) (rgs_snoc (Suc n)))
      = (\<Sum>s\<leftarrow>rgs_snoc n. length (filter (\<lambda>x. max (nblocks 0 s) (Suc x) = j) [0..<Suc (nblocks 0 s)]))"
    by (simp add: length_filter_concat comp_def filter_map del: upt_Suc)
  also have "\<dots> = (\<Sum>s\<leftarrow>rgs_snoc n. (if nblocks 0 s = j then j else 0) + (if Suc (nblocks 0 s) = j then 1 else 0))"
    by (rule arg_cong [where f = sum_list], rule map_cong [OF refl])
       (auto simp: count_extensions simp del: upt_Suc)
  also have "\<dots> = j * length (filter (\<lambda>s. nblocks 0 s = j) (rgs_snoc n))
                 + length (filter (\<lambda>s. Suc (nblocks 0 s) = j) (rgs_snoc n))"
    by (rule sum_list_indicator)
  also have "\<dots> = Stirling2 (Suc n) j"
  proof (cases j)
    case 0
    then show ?thesis by simp
  next
    case (Suc j')
    then show ?thesis by (simp add: Suc.IH)
  qed
  finally show ?case .
qed

lemma length_by_classes:
  fixes f :: "'a \<Rightarrow> nat"
  shows "(\<And>x. x \<in> set xs \<Longrightarrow> f x \<le> n) \<Longrightarrow>
     length xs = (\<Sum>j\<le>n. length (filter (\<lambda>x. f x = j) xs))"
proof (induction xs)
  case Nil
  show ?case by simp
next
  case (Cons x xs)
  have fx: "f x \<le> n" by (rule Cons.prems) simp
  have "(\<Sum>j\<le>n. length (filter (\<lambda>y. f y = j) (x # xs)))
      = (\<Sum>j\<le>n. (if f x = j then 1 else 0) + length (filter (\<lambda>y. f y = j) xs))"
    by (rule sum.cong) auto
  also have "\<dots> = (\<Sum>j\<le>n. if f x = j then 1 else 0) + (\<Sum>j\<le>n. length (filter (\<lambda>y. f y = j) xs))"
    by (rule sum.distrib)
  also have "(\<Sum>j\<le>n. if f x = j then 1 else 0) = (1::nat)"
    using fx by (subst sum.delta') simp_all
  also have "(\<Sum>j\<le>n. length (filter (\<lambda>y. f y = j) xs)) = length xs"
    using Cons.prems by (intro Cons.IH [symmetric]) simp
  finally show ?case by simp
qed

lemma restricted_nblocks_le: "restricted m s \<Longrightarrow> nblocks m s \<le> m + length s"
proof (induction s arbitrary: m)
  case (Cons x s)
  then have "nblocks (max m (Suc x)) s \<le> max m (Suc x) + length s" by simp
  also have "\<dots> \<le> m + length (x # s)" using Cons.prems by (simp add: max_def)
  finally show ?case by simp
qed simp

lemma length_rgs_snoc: "length (rgs_snoc n) = bell n"
proof -
  have "nblocks 0 s \<le> n" if "s \<in> set (rgs_snoc n)" for s
    using that restricted_nblocks_le [of 0 s] by (simp add: set_rgs_snoc)
  then have "length (rgs_snoc n) = (\<Sum>j\<le>n. length (filter (\<lambda>s. nblocks 0 s = j) (rgs_snoc n)))"
    by (rule length_by_classes)
  then show ?thesis
    by (simp add: count_rgs_snoc bell_def)
qed

lemma length_rgs_from: "length (rgs_from 0 n) = bell n"
proof -
  have "length (rgs_from 0 n) = card (set (rgs_from 0 n))"
    by (simp add: distinct_card distinct_rgs_from)
  also have "set (rgs_from 0 n) = set (rgs_snoc n)"
    by (simp add: set_rgs_from set_rgs_snoc)
  also have "card (set (rgs_snoc n)) = length (rgs_snoc n)"
    by (simp add: distinct_card distinct_rgs_snoc)
  finally show ?thesis by (simp add: length_rgs_snoc)
qed


lemma generate_set_partition_strings_rgs:
  assumes "1 \<le> n"
  shows "generate_set_partition_strings n = Some (Inr (rgs_from 0 n))"
proof (cases "n = 1")
  case True
  then show ?thesis by (simp add: generate_set_partition_strings_def)
next
  case False
  with assms have "2 \<le> n" by simp
  then show ?thesis by (rule generate_set_partition_strings_all)
qed

lemma bell_values: "bell 1 = 1" "bell 2 = 2" "bell 3 = 5" "bell 4 = 15"
  by (simp_all add: bell_def numeral_eq_Suc)

text \<open>
  Claim C2.  For \<open>n = 0\<close> the generator returns the empty list.  For every \<open>n \<ge> 1\<close> it
  returns, and what it returns is a list without repetition of exactly the restricted
  growth strings of length \<open>n\<close>, whose number is the \<open>n\<close>-th Bell number; the Bell numbers of
  1, 2, 3 and 4 are 1, 2, 5 and 15.
\<close>

theorem generate_set_partition_strings_bell:
  "generate_set_partition_strings 0 = Some (Inr [])
   \<and> (1 \<le> n \<longrightarrow>
        (\<exists>ps. generate_set_partition_strings n = Some (Inr ps)
           \<and> length ps = bell n \<and> distinct ps
           \<and> set ps = {a. length a = n \<and> is_rgs a}))
   \<and> bell 1 = 1 \<and> bell 2 = 2 \<and> bell 3 = 5 \<and> bell 4 = 15"
proof (intro conjI impI)
  show "generate_set_partition_strings 0 = Some (Inr [])"
    by (simp add: generate_set_partition_strings_def)
next
  assume "1 \<le> n"
  then have "generate_set_partition_strings n = Some (Inr (rgs_from 0 n))"
    by (rule generate_set_partition_strings_rgs)
  moreover have "length (rgs_from 0 n) = bell n"
    by (rule length_rgs_from)
  moreover have "distinct (rgs_from 0 n)"
    by (rule distinct_rgs_from)
  moreover have "set (rgs_from 0 n) = {a. length a = n \<and> is_rgs a}"
    by (simp add: set_rgs_from is_rgs_restricted)
  ultimately show "\<exists>ps. generate_set_partition_strings n = Some (Inr ps)
           \<and> length ps = bell n \<and> distinct ps
           \<and> set ps = {a. length a = n \<and> is_rgs a}"
    by blast
qed (rule bell_values)+

theorem generate_set_partition_strings_bell_witness:
  "\<exists>ps. generate_set_partition_strings 3 = Some (Inr ps) \<and> length ps = 5 \<and> distinct ps
     \<and> set ps = {a. length a = 3 \<and> is_rgs a}"
proof -
  have "(1::nat) \<le> 3" by simp
  with generate_set_partition_strings_bell [of 3] show ?thesis
    by (simp add: bell_values)
qed

section \<open>utils.unique\_rows\<close>

text \<open>
  A table is the list of its rows.  \<^verbatim>\<open>unique_rows\<close> views the table as raw bytes, one opaque
  void item of \<^verbatim>\<open>arr.dtype.itemsize * arr.shape[1]\<close> bytes for every row.  A table without
  elements, that is without rows or without columns, has no bytes, and its view has no items.

  What numpy does with void items is not in the source.  It is the parameter \<open>np\<close>:
  \<open>void_key\<close> is the byte image of a row, by which \<^verbatim>\<open>scipy.unique\<close> sorts the items;
  \<open>unique_sorts_void\<close> says whether \<^verbatim>\<open>scipy.unique\<close> sorts void items at all, which numpy 1.6.2
  refuses with a \<^verbatim>\<open>TypeError\<close>; \<open>void_gt\<close> is what \<^verbatim>\<open>>\<close> answers on two void scalars.
\<close>

record ('a, 'k) numpy =
  void_key :: "'a list \<Rightarrow> 'k"
  unique_sorts_void :: bool
  void_gt :: "'a list \<Rightarrow> 'a list \<Rightarrow> bool"

definition void_view :: "'a list list \<Rightarrow> 'a list list" where
  "void_view arr = (if concat arr = [] then [] else arr)"

text \<open>
  \<^verbatim>\<open>scipy.unique(b, return_index=True)\<close> returns at once on an array without items.  Otherwise
  it sorts the items, flags every item that differs from its predecessor, and returns the
  original index of every flagged item.  Two void items differ when their bytes do, that is
  when the rows do.  The sort is taken to be stable; which of several equal items it puts
  first selects among indices of equal rows.
\<close>

definition scipy_unique_index :: "('a, 'k::linorder) numpy \<Rightarrow> 'a list list \<Rightarrow> error + nat list" where
  "scipy_unique_index np ar =
     (if ar = [] then Inr []
      else if \<not> unique_sorts_void np then Inl TypeError
      else
        let perm = sort_key (\<lambda>i. void_key np (ar ! i)) [0..<length ar];
            aux = map (\<lambda>i. ar ! i) perm;
            flag = True # map2 (\<lambda>x y. x \<noteq> y) (tl aux) (butlast aux)
        in Inr (mask_select perm flag))"

text \<open>
  \<^verbatim>\<open>_Row.__cmp__\<close>.  In the branch that uses it a \<^verbatim>\<open>_Row\<close> holds one void item, so that the
  first element that differs is the item itself.
\<close>

definition Row_cmp :: "('a, 'k) numpy \<Rightarrow> 'a list \<Rightarrow> 'a list \<Rightarrow> int" where
  "Row_cmp np row other = (if row = other then 0 else if void_gt np row other then 1 else - 1)"

text \<open>
  \<^verbatim>\<open>sorted\<close> is stable and compares with \<^verbatim>\<open><\<close> only.  It is modelled by insertion from the
  right, with which every stable sort agrees when \<^verbatim>\<open><\<close> is a strict weak order; for any other
  \<^verbatim>\<open><\<close> the outcome of Python's merge strategy is not modelled.
\<close>

fun insort_lt :: "('b \<Rightarrow> 'b \<Rightarrow> bool) \<Rightarrow> 'b \<Rightarrow> 'b list \<Rightarrow> 'b list" where
  "insort_lt lt x [] = [x]"
| "insort_lt lt x (y # ys) = (if lt y x then y # insort_lt lt x ys else x # y # ys)"

definition sorted_lt :: "('b \<Rightarrow> 'b \<Rightarrow> bool) \<Rightarrow> 'b list \<Rightarrow> 'b list" where
  "sorted_lt lt xs = foldr (insort_lt lt) xs []"

text \<open>
  The \<^verbatim>\<open>except TypeError\<close> branch: the row indices are sorted by comparing the rows,
  \<^verbatim>\<open>row_cmp\<close> compares every sorted row with its predecessor, and the indices at which it
  is not 0 are kept.  Without rows \<^verbatim>\<open>row_cmp\<close> is \<^verbatim>\<open>[-1]\<close> and index 0 is out of range.
\<close>

definition Row_index :: "('a, 'k) numpy \<Rightarrow> 'a list list \<Rightarrow> error + nat list" where
  "Row_index np b =
     (let srt_idx = sorted_lt (\<lambda>i j. Row_cmp np (b ! i) (b ! j) < 0) [0..<length b];
          rows = map (\<lambda>i. b ! i) srt_idx;
          row_cmp = - 1 # map (\<lambda>k. Row_cmp np (rows ! (k - 1)) (rows ! k)) [1..<length srt_idx];
          transition_idxs = filter (\<lambda>t. row_cmp ! t \<noteq> 0) [0..<length row_cmp]
      in if srt_idx = [] then Inl IndexError
         else Inr (map (\<lambda>t. srt_idx ! t) transition_idxs))"

text \<open>
  \<^verbatim>\<open>unique_rows\<close>.  Only a \<^verbatim>\<open>TypeError\<close> is caught.  The rows of \<^verbatim>\<open>b\<close> the caught branch
  iterates over are the rows of the table.
\<close>

definition unique_rows :: "('a, 'k::linorder) numpy \<Rightarrow> 'a list list \<Rightarrow> error + 'a list list" where
  "unique_rows np arr =
     (case (case scipy_unique_index np (void_view arr) of
              Inr idx \<Rightarrow> Inr idx
            | Inl e \<Rightarrow> if e = TypeError then Row_index np arr else Inl e)
      of Inl e \<Rightarrow> Inl e
       | Inr idx \<Rightarrow> Inr (map (\<lambda>i. arr ! i) idx))"

text \<open>
  A numpy that orders void items by \<open>key\<close>, in the sort and in \<^verbatim>\<open>>\<close>; and what it means for
  \<open>np\<close> to order the rows of a table by their bytes: distinct rows have distinct images, and
  where the caught branch runs \<^verbatim>\<open>>\<close> follows the images.
\<close>

definition numpy_of :: "('a list \<Rightarrow> 'k::linorder) \<Rightarrow> bool \<Rightarrow> ('a, 'k) numpy" where
  "numpy_of key sorts = \<lparr>void_key = key, unique_sorts_void = sorts, void_gt = (\<lambda>x y. key y < key x)\<rparr>"

definition byte_order :: "('a, 'k::linorder) numpy \<Rightarrow> 'a list set \<Rightarrow> bool" where
  "byte_order np S \<longleftrightarrow>
     inj_on (void_key np) S
     \<and> (unique_sorts_void np \<or> (\<forall>x\<in>S. \<forall>y\<in>S. void_gt np x y = (void_key np y < void_key np x)))"

definition first_entry :: "'a::zero list \<Rightarrow> 'a" where
  "first_entry r = (case r of [] \<Rightarrow> 0 | x # xs \<Rightarrow> x)"


subsection \<open>The rows returned are the distinct rows\<close>

lemma mask_select_Cons [simp]:
  "mask_select (x # xs) (b # bs) = (if b then [x] else []) @ mask_select xs bs"
  by (simp add: mask_select_def)

lemma mask_select_Nil [simp]: "mask_select [] bs = []" "mask_select xs [] = []"
  by (simp_all add: mask_select_def)

lemma mask_select_map: "mask_select (map f xs) ms = map f (mask_select xs ms)"
proof (induction xs arbitrary: ms)
  case (Cons x xs)
  then show ?case by (cases ms) auto
qed simp

lemma mask_select_conv_nth:
  "length ms = length xs \<Longrightarrow>
     mask_select xs ms = map (\<lambda>i. xs ! i) (filter (\<lambda>i. ms ! i) [0..<length xs])"
proof (induction xs arbitrary: ms)
  case Nil
  show ?case by simp
next
  case (Cons x xs)
  then obtain m ms' where ms: "ms = m # ms'" "length ms' = length xs" by (cases ms) auto
  have upt: "[0..<length (x # xs)] = 0 # map Suc [0..<length xs]"
    by (simp add: upt_conv_Cons map_Suc_upt del: upt_Suc)
  show ?case
    unfolding upt ms(1) using Cons.IH [OF ms(2)]
    by (simp add: filter_map comp_def)
qed

lemma run_heads:
  "mask_select (x # xs) (b # map2 (\<lambda>u v. u \<noteq> v) xs (butlast (x # xs)))
     = (if b then [x] else []) @ tl (remdups_adj (x # xs))"
proof (induction xs arbitrary: x b)
  case Nil
  show ?case by simp
next
  case (Cons y ys)
  have "remdups_adj (y # ys) = y # tl (remdups_adj (y # ys))"
    by (cases ys) auto
  then have tl: "tl (remdups_adj (x # y # ys))
      = (if y \<noteq> x then [y] else []) @ tl (remdups_adj (y # ys))"
    by (cases ys) auto
  show ?case
    using Cons.IH [where x = y and b = "y \<noteq> x"] by (simp add: tl)
qed

lemma distinct_remdups_adj_key:
  fixes key :: "'a \<Rightarrow> 'k::linorder"
  assumes "sorted (map key xs)" and "inj_on key (set xs)"
  shows "distinct (remdups_adj xs)"
  using assms
proof (induction xs rule: remdups_adj.induct)
  case (3 x y xs)
  show ?case
  proof (cases "x = y")
    case True
    with 3 show ?thesis by auto
  next
    case False
    have d: "distinct (remdups_adj (y # xs))"
      using 3 False by auto
    have "x \<noteq> z" if "z \<in> set (y # xs)" for z
    proof
      assume "x = z"
      from "3.prems"(1) that have "key y \<le> key z" "key x \<le> key y" by auto
      with \<open>x = z\<close> have "key x = key y" by simp
      with "3.prems"(2) have "x = y" by (auto dest: inj_onD)
      with False show False by simp
    qed
    then have "x \<notin> set (remdups_adj (y # xs))" by auto
    with d False show ?thesis by simp
  qed
qed simp_all

lemma insort_lt_key:
  fixes f :: "'b \<Rightarrow> 'k::linorder"
  assumes "\<forall>y\<in>set ys. lt y x = (f y < f x)"
  shows "insort_lt lt x ys = insort_key f x ys"
  using assms by (induction ys) auto

lemma sorted_lt_key:
  fixes f :: "'b \<Rightarrow> 'k::linorder"
  assumes "\<forall>x\<in>set xs. \<forall>y\<in>set xs. lt x y = (f x < f y)"
  shows "sorted_lt lt xs = sort_key f xs"
  using assms
proof (induction xs)
  case Nil
  show ?case by (simp add: sorted_lt_def)
next
  case (Cons x xs)
  then have IH: "sorted_lt lt xs = sort_key f xs" by simp
  have "sorted_lt lt (x # xs) = insort_lt lt x (sort_key f xs)"
    using IH by (simp add: sorted_lt_def)
  also have "\<dots> = insort_key f x (sort_key f xs)"
    using Cons.prems by (intro insort_lt_key) simp
  finally show ?case by (simp add: sort_key_def)
qed

lemma length_sorted_lt [simp]: "length (sorted_lt lt xs) = length xs"
proof -
  have "length (insort_lt lt x ys) = Suc (length ys)" for x and ys :: "'a list"
    by (induction ys) auto
  then show ?thesis
    by (induction xs) (simp_all add: sorted_lt_def)
qed

lemma sorted_lt_Nil [simp]: "sorted_lt lt xs = [] \<longleftrightarrow> xs = []"
proof -
  have "insort_lt lt x ys \<noteq> []" for x and ys :: "'a list"
    by (cases ys) auto
  then show ?thesis
    by (cases xs) (simp_all add: sorted_lt_def)
qed

lemma Row_cmp_0 [simp]: "Row_cmp np x y \<noteq> 0 \<longleftrightarrow> x \<noteq> y"
  by (simp add: Row_cmp_def)

lemma neighbours_differ:
  "map (\<lambda>k. aux ! (k - 1) \<noteq> aux ! k) [1..<length aux] = map2 (\<lambda>x y. x \<noteq> y) (tl aux) (butlast aux)"
proof (rule nth_equalityI)
  show "length (map (\<lambda>k. aux ! (k - 1) \<noteq> aux ! k) [1..<length aux])
      = length (map2 (\<lambda>x y. x \<noteq> y) (tl aux) (butlast aux))"
    by simp
next
  fix i assume "i < length (map (\<lambda>k. aux ! (k - 1) \<noteq> aux ! k) [1..<length aux])"
  then have i: "Suc i < length aux" by simp
  then show "map (\<lambda>k. aux ! (k - 1) \<noteq> aux ! k) [1..<length aux] ! i
      = map2 (\<lambda>x y. x \<noteq> y) (tl aux) (butlast aux) ! i"
    by (auto simp: nth_tl nth_butlast)
qed

text \<open>
  With the items sorted by \<open>void_key\<close>, the flagged items are the heads of the runs of equal
  rows, in either branch.
\<close>

definition sorted_rows :: "('a, 'k::linorder) numpy \<Rightarrow> 'a list list \<Rightarrow> 'a list list" where
  "sorted_rows np ar = map (\<lambda>i. ar ! i) (sort_key (\<lambda>i. void_key np (ar ! i)) [0..<length ar])"

lemma set_sorted_rows [simp]: "set (sorted_rows np ar) = set ar"
proof -
  have "set (sorted_rows np ar) = (\<lambda>i. ar ! i) ` {0..<length ar}"
    by (simp add: sorted_rows_def)
  also have "\<dots> = set ar" by (auto simp: set_conv_nth)
  finally show ?thesis .
qed

lemma sorted_sorted_rows: "sorted (map (void_key np) (sorted_rows np ar))"
  by (simp add: sorted_rows_def comp_def
        sorted_sort_key [of "\<lambda>i. void_key np (ar ! i)", unfolded comp_def])

lemma run_heads_sorted:
  assumes "ar \<noteq> []"
  shows "map (\<lambda>i. ar ! i)
           (mask_select (sort_key (\<lambda>i. void_key np (ar ! i)) [0..<length ar])
              (True # map2 (\<lambda>x y. x \<noteq> y) (tl (sorted_rows np ar)) (butlast (sorted_rows np ar))))
       = remdups_adj (sorted_rows np ar)"
proof -
  have "length (sorted_rows np ar) = length ar"
    by (simp add: sorted_rows_def)
  with assms have "sorted_rows np ar \<noteq> []"
    by (cases "sorted_rows np ar") auto
  then obtain x xs where aux: "sorted_rows np ar = x # xs" by (cases "sorted_rows np ar") auto
  have "map (\<lambda>i. ar ! i)
           (mask_select (sort_key (\<lambda>i. void_key np (ar ! i)) [0..<length ar])
              (True # map2 (\<lambda>x y. x \<noteq> y) (tl (sorted_rows np ar)) (butlast (sorted_rows np ar))))
      = mask_select (sorted_rows np ar)
          (True # map2 (\<lambda>x y. x \<noteq> y) (tl (sorted_rows np ar)) (butlast (sorted_rows np ar)))"
    by (simp add: mask_select_map [symmetric] sorted_rows_def)
  also have "\<dots> = remdups_adj (sorted_rows np ar)"
    unfolding aux using run_heads [where x = x and b = True and xs = xs] by simp
  finally show ?thesis .
qed

lemma scipy_unique_index_rows:
  assumes "ar \<noteq> []" and "unique_sorts_void np"
  shows "\<exists>idx. scipy_unique_index np ar = Inr idx
           \<and> map (\<lambda>i. ar ! i) idx = remdups_adj (sorted_rows np ar)"
  using assms run_heads_sorted [OF assms(1), of np]
  by (simp add: scipy_unique_index_def Let_def sorted_rows_def)

lemma Row_index_rows:
  assumes ne: "ar \<noteq> []" and inj: "inj_on (void_key np) (set ar)"
    and gt: "\<forall>x\<in>set ar. \<forall>y\<in>set ar. void_gt np x y = (void_key np y < void_key np x)"
  shows "\<exists>idx. Row_index np ar = Inr idx
           \<and> map (\<lambda>i. ar ! i) idx = remdups_adj (sorted_rows np ar)"
proof -
  define perm where "perm = sort_key (\<lambda>i. void_key np (ar ! i)) [0..<length ar]"
  define aux where "aux = map (\<lambda>i. ar ! i) perm"
  define row_cmp where "row_cmp = - 1 # map (\<lambda>k. Row_cmp np (aux ! (k - 1)) (aux ! k)) [1..<length perm]"
  define flag where "flag = True # map2 (\<lambda>x y. x \<noteq> y) (tl aux) (butlast aux)"
  have aux_rows: "aux = sorted_rows np ar"
    by (simp add: aux_def perm_def sorted_rows_def)
  have lt: "(Row_cmp np (ar ! i) (ar ! j) < 0) = (void_key np (ar ! i) < void_key np (ar ! j))"
    if "i < length ar" "j < length ar" for i j
  proof -
    from that have mem: "ar ! i \<in> set ar" "ar ! j \<in> set ar" by simp_all
    with inj have "ar ! i = ar ! j \<longleftrightarrow> void_key np (ar ! i) = void_key np (ar ! j)"
      by (auto dest: inj_onD)
    moreover from gt mem
    have "void_gt np (ar ! i) (ar ! j) = (void_key np (ar ! j) < void_key np (ar ! i))"
      by simp
    ultimately show ?thesis
      by (auto simp: Row_cmp_def)
  qed
  have srt: "sorted_lt (\<lambda>i j. Row_cmp np (ar ! i) (ar ! j) < 0) [0..<length ar] = perm"
    unfolding perm_def by (rule sorted_lt_key) (simp add: lt)
  have lperm: "length perm = length ar" by (simp add: perm_def)
  have laux: "length aux = length perm" by (simp add: aux_def)
  have "0 < length ar" using ne by simp
  then have lcmp: "length row_cmp = length perm"
    by (simp add: row_cmp_def lperm)
  have flags: "map (\<lambda>c. c \<noteq> 0) row_cmp = flag"
    using neighbours_differ [of aux]
    by (simp add: row_cmp_def flag_def comp_def laux)
  have "filter (\<lambda>t. row_cmp ! t \<noteq> 0) [0..<length row_cmp] = filter (\<lambda>t. flag ! t) [0..<length perm]"
    unfolding lcmp by (rule filter_cong [OF refl]) (simp add: flags [symmetric] lcmp)
  moreover have lflag: "length flag = length perm"
    unfolding flags [symmetric] using lcmp by simp
  ultimately have "map (\<lambda>t. perm ! t) (filter (\<lambda>t. row_cmp ! t \<noteq> 0) [0..<length row_cmp]) = mask_select perm flag"
    by (simp only: mask_select_conv_nth [OF lflag])
  moreover have "perm \<noteq> []" using ne lperm by auto
  ultimately have "Row_index np ar = Inr (mask_select perm flag)"
    unfolding Row_index_def Let_def srt aux_def [symmetric] row_cmp_def [symmetric]
    by (simp only: if_False)
  moreover have "map (\<lambda>i. ar ! i) (mask_select perm flag) = remdups_adj (sorted_rows np ar)"
    using run_heads_sorted [OF ne, of np] by (simp add: perm_def flag_def aux_rows)
  ultimately show ?thesis by simp
qed

lemma void_view_elements: "concat arr \<noteq> [] \<Longrightarrow> void_view arr = arr"
  by (simp only: void_view_def if_False)

lemma unique_rows_no_elements: "concat arr = [] \<Longrightarrow> unique_rows np arr = Inr []"
  by (simp add: unique_rows_def void_view_def scipy_unique_index_def)

lemma unique_rows_returns: "\<exists>us. unique_rows np arr = Inr us"
proof (cases "concat arr = []")
  case True
  then show ?thesis by (simp add: unique_rows_no_elements)
next
  case False
  then have ne: "arr \<noteq> []" by auto
  have view: "void_view arr = arr"
    using False by (rule void_view_elements)
  show ?thesis
  proof (cases "unique_sorts_void np")
    case True
    with ne obtain idx where "scipy_unique_index np arr = Inr idx"
      by (simp add: scipy_unique_index_def Let_def)
    then show ?thesis by (simp add: unique_rows_def view)
  next
    case sorts: False
    with ne have raised: "scipy_unique_index np arr = Inl TypeError"
      by (simp add: scipy_unique_index_def)
    from ne have "[0..<length arr] \<noteq> []" by simp
    then obtain idx where "Row_index np arr = Inr idx"
      unfolding Row_index_def Let_def by (simp only: sorted_lt_Nil if_False)
    then show ?thesis by (simp add: unique_rows_def view raised)
  qed
qed

lemma unique_rows_set_distinct:
  assumes "byte_order np (set arr)" and "concat arr \<noteq> []"
  shows "\<exists>us. unique_rows np arr = Inr us \<and> set us = set arr \<and> distinct us"
proof -
  from assms(2) have ne: "arr \<noteq> []" by auto
  from assms(1) have inj: "inj_on (void_key np) (set arr)"
    by (simp add: byte_order_def)
  have "\<exists>us. unique_rows np arr = Inr us \<and> us = remdups_adj (sorted_rows np arr)"
  proof (cases "unique_sorts_void np")
    case True
    from scipy_unique_index_rows [OF ne True] show ?thesis
      by (auto simp: unique_rows_def void_view_elements [OF assms(2)])
  next
    case False
    with assms(1) have "\<forall>x\<in>set arr. \<forall>y\<in>set arr. void_gt np x y = (void_key np y < void_key np x)"
      by (simp add: byte_order_def)
    from Row_index_rows [OF ne inj this] False ne show ?thesis
      by (auto simp: unique_rows_def void_view_elements [OF assms(2)] scipy_unique_index_def)
  qed
  moreover have "distinct (remdups_adj (sorted_rows np arr))"
    using sorted_sorted_rows inj by (intro distinct_remdups_adj_key [of "void_key np"]) simp_all
  ultimately show ?thesis by auto
qed

text \<open>
  On a table with at least one row and one column, in either branch and for every order of
  the bytes, the rows returned are rows of the table, every row of the table is among them,
  and none is returned twice.
\<close>

lemma unique_rows_distinct_rows:
  fixes arr :: "int list list"
  assumes "byte_order np (set arr)" and "concat arr \<noteq> []"
  shows "\<exists>us. unique_rows np arr = Inr us \<and> set us = set arr \<and> distinct us
     \<and> (arr = [[0, 0], [1, 0], [0, 0]] \<longrightarrow> length us = 2 \<and> set us = {[0, 0], [1, 0]})"
proof -
  from unique_rows_set_distinct [OF assms] obtain us where
    us: "unique_rows np arr = Inr us" "set us = set arr" "distinct us" by blast
  have "length us = 2 \<and> set us = {[0, 0], [1, 0]}" if arr: "arr = [[0, 0], [1, 0], [0, 0]]"
  proof
    have "length us = card (set us)"
      using us(3) by (simp add: distinct_card)
    also have "\<dots> = card {[0, 0], [1, 0 :: int]}"
      unfolding us(2) by (simp add: arr insert_commute)
    finally show "length us = 2" by simp
    show "set us = {[0, 0], [1, 0]}"
      unfolding us(2) by (auto simp: arr)
  qed
  with us show ?thesis by blast
qed

lemma unique_rows_example:
  "unique_rows (numpy_of first_entry True) [[0, 0], [1, 0], [0, 0 :: int]] = Inr [[0, 0], [1, 0]]"
  "unique_rows (numpy_of first_entry False) [[0, 0], [1, 0], [0, 0 :: int]] = Inr [[0, 0], [1, 0]]"
  by (simp_all add: unique_rows_def void_view_def scipy_unique_index_def Row_index_def Row_cmp_def
        sorted_lt_def numpy_of_def first_entry_def Let_def)

text \<open>
  Claim C9.  The rows returned are the distinct rows of the table only when the table has
  elements.  A table of three rows and no column has one distinct row, the empty one, and
  \<open>unique_rows\<close> returns no row: the void view of a table without columns has no items.
\<close>

theorem unique_rows_without_columns:
  "set [[], [], [] :: int list] = {[]}
   \<and> unique_rows (numpy_of first_entry True) [[], [], [] :: int list] = Inr []
   \<and> unique_rows (numpy_of first_entry False) [[], [], [] :: int list] = Inr []"
  by (simp add: unique_rows_def void_view_def scipy_unique_index_def)


section \<open>kernel.core: evaluation\<close>

text \<open>
  An optional argument that was left out takes its default; a parameter named in the
  signature is bound the same way whether it was passed by position or by keyword.
\<close>

definition bound_arg :: "'a \<Rightarrow> 'a passed \<Rightarrow> 'a" where
  "bound_arg dflt x = (case x of Omitted \<Rightarrow> dflt | Positional v \<Rightarrow> v | Keyword v \<Rightarrow> v)"

text \<open>
  Arrays that are combined entry by entry have equal shapes in every call the documented
  \<open>(M, N)\<close> contract allows.  For other shapes numpy broadcasts or raises; the model does not
  follow it there and stops with \<open>ShapeMismatch\<close>.
\<close>

definition same_shape :: "'a list list \<Rightarrow> 'b list list \<Rightarrow> bool" where
  "same_shape A B \<longleftrightarrow> list_all2 (\<lambda>r s. length r = length s) A B"

subsection \<open>ChainRuleKernel\<close>

text \<open>
  \<^verbatim>\<open>_compute_dk_dtau_on_partition(tau, p)\<close>: the derivative of order \<open>len(p)\<close> of the covariance
  with respect to \<open>y\<close>, multiplied in place by one factor per block.  The primitives act on
  every row of \<^verbatim>\<open>tau\<close> alike.
\<close>

definition compute_dk_dtau_on_partition ::
  "'h attrs \<Rightarrow> prims \<Rightarrow> real list list \<Rightarrow> nat list list \<Rightarrow> real list" where
  "compute_dk_dtau_on_partition self P tau p =
     (let y_r2l2 = map (compute_y P (params self)) tau;
          dk_dtau = map (\<lambda>(y, r2l2). compute_dk_dy P (params self) y (length p)) y_r2l2
      in fold (\<lambda>b dk_dtau.
                 map2 (*) dk_dtau
                   (map2 (\<lambda>t (y, r2l2). compute_dy_dtau P (params self) t b r2l2) tau y_r2l2))
           p dk_dtau)"

text \<open>
  \<^verbatim>\<open>_compute_dk_dtau(tau, n)\<close>.  The derivative pattern lists every dimension index as often
  as the order of the derivative along it: \<^verbatim>\<open>n[idx] * [idx]\<close> repeats \<open>idx\<close>.  The
  partition generator is the module-level name \<^verbatim>\<open>generate_set_partitions\<close>, looked up when
  the \<^verbatim>\<open>else\<close> branch runs; it is the argument \<open>gen\<close>, so that a statement can say of a call
  that it does not depend on what the generator does.
\<close>

definition deriv_pattern :: "nat list \<Rightarrow> nat list" where
  "deriv_pattern n = concat (map (\<lambda>idx. replicate (n ! idx) idx) [0..<length n])"

definition compute_dk_dtau_using ::
  "(nat list \<Rightarrow> (error + nat list list list) option) \<Rightarrow>
   'h attrs \<Rightarrow> prims \<Rightarrow> real list list \<Rightarrow> nat list \<Rightarrow> result" where
  "compute_dk_dtau_using gen self P tau n =
     (if length (deriv_pattern n) = 0 then Some (Inr (map (compute_k P (params self)) tau))
      else
        case gen (deriv_pattern n) of
          None \<Rightarrow> None
        | Some (Inl e) \<Rightarrow> Some (Inl e)
        | Some (Inr deriv_partitions) \<Rightarrow>
            Some (Inr (fold (\<lambda>partition dk_dtau.
                               map2 (+) dk_dtau (compute_dk_dtau_on_partition self P tau partition))
                         deriv_partitions (replicate (length tau) 0))))"

definition compute_dk_dtau :: "'h attrs \<Rightarrow> prims \<Rightarrow> real list list \<Rightarrow> nat list \<Rightarrow> result" where
  "compute_dk_dtau = compute_dk_dtau_using generate_set_partitions"

text \<open>
  One round of the loop over the distinct multi-indices in \<^verbatim>\<open>ChainRuleKernel.__call__\<close>:
  \<^verbatim>\<open>idxs = (n_combined == n_combined_state).all(axis=1)\<close> and
  \<^verbatim>\<open>k[idxs] = self._compute_dk_dtau(tau[idxs], n_combined_state)\<close>.
\<close>

definition group_round ::
  "'h attrs \<Rightarrow> prims \<Rightarrow> real list list \<Rightarrow> nat list list \<Rightarrow> nat list \<Rightarrow> result \<Rightarrow> result" where
  "group_round self P tau n_combined n_combined_state acc =
     (case acc of
        None \<Rightarrow> None
      | Some (Inl e) \<Rightarrow> Some (Inl e)
      | Some (Inr k) \<Rightarrow>
          (let idxs = map (\<lambda>row. row = n_combined_state) n_combined in
           case compute_dk_dtau self P (mask_select tau idxs) n_combined_state of
             None \<Rightarrow> None
           | Some (Inl e) \<Rightarrow> Some (Inl e)
           | Some (Inr v) \<Rightarrow> Some (Inr (mask_assign k idxs v))))"

text \<open>
  \<^verbatim>\<open>ChainRuleKernel.__call__\<close>.  \<open>np\<close> is the numpy \<open>unique_rows\<close> runs on.
  \<^verbatim>\<open>self.params[0]\<close> is read after the loop and raises \<open>IndexError\<close> on a kernel without
  parameters.
\<close>

definition ChainRuleKernel_call ::
  "(nat, 'k::linorder) numpy \<Rightarrow> 'h attrs \<Rightarrow> prims \<Rightarrow> call \<Rightarrow> result" where
  "ChainRuleKernel_call np self P c =
     (case bound_arg None (hyper_deriv c) of
        Some h \<Rightarrow> Some (Inl NotImplementedError)
      | None \<Rightarrow>
          if \<not> (same_shape (Xi c) (Xj c) \<and> same_shape (ni c) (nj c) \<and> length (ni c) = length (Xi c))
          then Some (Inl ShapeMismatch)
          else
            let tau = map2 (map2 (-)) (Xi c) (Xj c);
                n_tot_j = map sum_list (nj c);
                n_combined = map2 (map2 (+)) (ni c) (nj c)
            in case unique_rows np n_combined of
                 Inl e \<Rightarrow> Some (Inl e)
               | Inr n_combined_unique \<Rightarrow>
                   let k = replicate (length (Xi c)) 0
                   in case fold (group_round self P tau n_combined) n_combined_unique (Some (Inr k)) of
                        None \<Rightarrow> None
                      | Some (Inl e) \<Rightarrow> Some (Inl e)
                      | Some (Inr k) \<Rightarrow>
                          (case params self of
                             [] \<Rightarrow> Some (Inl IndexError)
                           | p0 # ps \<Rightarrow>
                               Some (Inr (map2 (\<lambda>j_chain_factor kv. p0 ^ 2 * j_chain_factor * kv)
                                            (map (\<lambda>s. (- 1) ^ s) n_tot_j) k))))"

subsection \<open>Kernel, SumKernel and ProductKernel\<close>

text \<open>
  The sum or product of the two vectors the children return; a child that raises or does
  not return ends the call, \<open>k1\<close> first.
\<close>

definition elementwise :: "(real \<Rightarrow> real \<Rightarrow> real) \<Rightarrow> result \<Rightarrow> result \<Rightarrow> result" where
  "elementwise f r1 r2 =
     (case r1 of
        None \<Rightarrow> None
      | Some (Inl e) \<Rightarrow> Some (Inl e)
      | Some (Inr v1) \<Rightarrow>
          (case r2 of
             None \<Rightarrow> None
           | Some (Inl e) \<Rightarrow> Some (Inl e)
           | Some (Inr v2) \<Rightarrow>
               if length v1 = length v2 then Some (Inr (map2 f v1 v2))
               else Some (Inl ShapeMismatch)))"

text \<open>
  \<^verbatim>\<open>__call__\<close> by class.  \<^verbatim>\<open>SumKernel.__call__(*args, **kwargs)\<close> tests
  \<^verbatim>\<open>'hyper_deriv' in kwargs and kwargs['hyper_deriv'] is not None\<close>, which sees a keyword
  argument only; both combinators hand \<^verbatim>\<open>*args, **kwargs\<close> on as they are.  No
  \<^verbatim>\<open>__call__\<close> writes an attribute, so that the call of the object \<open>k\<close> in the store \<open>s\<close>
  is \<open>evaluate np (snapshot s k) c\<close>.
\<close>

fun evaluate :: "(nat, 'k::linorder) numpy \<Rightarrow> 'h kernel \<Rightarrow> call \<Rightarrow> result" where
  "evaluate np (Kernel self) c = Some (Inl NotImplementedError)"
| "evaluate np (ConcreteKernel self f) c = f self c"
| "evaluate np (ChainRuleKernel self P) c = ChainRuleKernel_call np self P c"
| "evaluate np (BinaryKernel SumOp self k1 k2) c =
     (case hyper_deriv c of
        Keyword (Some h) \<Rightarrow> Some (Inl NotImplementedError)
      | _ \<Rightarrow> elementwise (+) (evaluate np k1 c) (evaluate np k2 c))"
| "evaluate np (BinaryKernel ProductOp self k1 k2) c =
     elementwise (*) (evaluate np k1 c) (evaluate np k2 c)"

subsection \<open>The Faa di Bruno sum, as the specification words it\<close>



subsection \<open>A chain-rule kernel and a call\<close>

definition example_prims :: prims where
  "example_prims = \<lparr>compute_k = (\<lambda>ps t. 1),
     compute_y = (\<lambda>ps t. (sum_list (map (\<lambda>x. x * x) t), 0)),
     compute_dk_dy = (\<lambda>ps y n. y ^ n),
     compute_dy_dtau = (\<lambda>ps t b r. real (length b) + 2 * t ! hd b)\<rparr>"

definition example_attrs :: "unit attrs" where
  "example_attrs = \<lparr>num_dim = 2, num_params = 1, params = [3], fixed_params = [False],
     param_bounds = [(Some 0, Some 10)], enforce_bounds = False, hyperpriors = [()], is_log = [True]\<rparr>"



subsection \<open>Every batch computation acts row by row\<close>

lemma map2_map_right: "map2 h xs (map g xs) = map (\<lambda>x. h x (g x)) xs"
  by (induction xs) auto















lemma deriv_pattern_empty: "deriv_pattern n = [] \<longleftrightarrow> (\<forall>d<length n. n ! d = 0)"
  by (auto simp: deriv_pattern_def)


text \<open>
  Claim C8.  For a combined multi-index that is all zero, \<open>_compute_dk_dtau\<close> returns the base
  covariance of every row of \<open>tau\<close>, and it does so whatever the partition generator would
  do if it were called, also when the generator raises or does not return: no partition is
  enumerated.
\<close>

theorem compute_dk_dtau_zero_order:
  assumes "\<forall>d<length n. n ! d = 0"
  shows "compute_dk_dtau_using gen self P tau n = Some (Inr (map (compute_k P (params self)) tau))
     \<and> compute_dk_dtau self P tau n = Some (Inr (map (compute_k P (params self)) tau))"
proof -
  have "deriv_pattern n = []"
    using assms by (simp only: deriv_pattern_empty)
  then show ?thesis
    by (simp add: compute_dk_dtau_def compute_dk_dtau_using_def)
qed

subsection \<open>Hyperparameter derivatives\<close>

text \<open>
  A concrete kernel that accepts every call, as a subclass with its own \<^verbatim>\<open>__call__\<close> may;
  a call that passes \<^verbatim>\<open>hyper_deriv=0\<close> by position, and the same call by keyword.
\<close>

definition constant_kernel :: "unit kernel" where
  "constant_kernel = ConcreteKernel
     \<lparr>num_dim = 1, num_params = 0, params = [], fixed_params = [], param_bounds = [],
      enforce_bounds = False, hyperpriors = [], is_log = []\<rparr>
     (\<lambda>self c. Some (Inr (replicate (length (Xi c)) 1)))"

definition positional_call :: call where
  "positional_call = \<lparr>Xi = [[0]], Xj = [[0]], ni = [[0]], nj = [[0]],
      hyper_deriv = Positional (Some 0), symmetric = Omitted\<rparr>"

definition keyword_call :: call where
  "keyword_call = \<lparr>Xi = [[0]], Xj = [[0]], ni = [[0]], nj = [[0]],
      hyper_deriv = Keyword (Some 0), symmetric = Omitted\<rparr>"

definition empty_attrs :: "unit attrs" where
  "empty_attrs = \<lparr>num_dim = 1, num_params = 0, params = [], fixed_params = [], param_bounds = [],
      enforce_bounds = False, hyperpriors = [], is_log = []\<rparr>"

text \<open>
  What each \<^verbatim>\<open>__call__\<close> does with \<open>hyper_deriv\<close>.  The abstract base raises
  \<open>NotImplementedError\<close> on every call; a chain-rule kernel raises it whenever \<open>hyper_deriv\<close>
  is not \<open>None\<close>, however it was passed; a \<open>SumKernel\<close> raises it when \<open>hyper_deriv\<close> is
  among the keyword arguments and is not \<open>None\<close>, and otherwise hands the call on; a
  \<open>ProductKernel\<close> hands every call on to both children.
\<close>

lemma evaluate_hyper_deriv_by_class:
  "evaluate np (Kernel self) c = Some (Inl NotImplementedError)
   \<and> (bound_arg None (hyper_deriv c) \<noteq> None \<longrightarrow>
        evaluate np (ChainRuleKernel self P) c = Some (Inl NotImplementedError))
   \<and> ((\<exists>h. hyper_deriv c = Keyword (Some h)) \<longrightarrow>
        evaluate np (SumKernel self k1 k2) c = Some (Inl NotImplementedError))
   \<and> ((\<exists>h. hyper_deriv c = Positional (Some h)) \<longrightarrow>
        evaluate np (SumKernel self k1 k2) c = elementwise (+) (evaluate np k1 c) (evaluate np k2 c))
   \<and> evaluate np (ProductKernel self k1 k2) c
       = elementwise (*) (evaluate np k1 c) (evaluate np k2 c)"
  by (auto simp: ChainRuleKernel_call_def split: option.splits)

text \<open>
  Claim C5.  \<^verbatim>\<open>SumKernel.__call__\<close> looks for \<open>hyper_deriv\<close> among the keyword arguments
  only.  With \<open>hyper_deriv = 0\<close> passed by position, as the fifth argument, the sum of two
  kernels that accept it raises nothing and returns the sum of what they return; with
  \<open>hyper_deriv = 0\<close> passed by keyword the same sum raises \<open>NotImplementedError\<close>, as a
  chain-rule kernel does for either way of passing it.
\<close>

theorem SumKernel_forwards_positional_hyper_deriv:
  "bound_arg None (hyper_deriv positional_call) = Some 0
   \<and> evaluate (numpy_of first_entry True) (SumKernel empty_attrs constant_kernel constant_kernel)
         positional_call
       = Some (Inr [2])
   \<and> evaluate (numpy_of first_entry True) (SumKernel empty_attrs constant_kernel constant_kernel)
         keyword_call
       = Some (Inl NotImplementedError)
   \<and> evaluate (numpy_of first_entry True) (ChainRuleKernel example_attrs example_prims) positional_call
       = Some (Inl NotImplementedError)
   \<and> evaluate (numpy_of first_entry True) (ChainRuleKernel example_attrs example_prims) keyword_call
       = Some (Inl NotImplementedError)"
  by (simp add: positional_call_def keyword_call_def constant_kernel_def bound_arg_def elementwise_def
        ChainRuleKernel_call_def)




theorem compute_dk_dtau_zero_order_witness:
  "compute_dk_dtau_using (\<lambda>pattern. None) example_attrs example_prims [[1, 2], [0, 1]] [0, 0] = Some (Inr [1, 1])"
proof -
  have "\<forall>d<length [0, 0 :: nat]. [0, 0 :: nat] ! d = 0"
    by (simp add: nth_Cons')
  from compute_dk_dtau_zero_order [OF this, of "\<lambda>pattern. None" example_attrs example_prims "[[1, 2], [0, 1]]"]
  show ?thesis
    by (simp add: example_prims_def)
qed

end
